theory Spec2Isabelle
  imports Complex_Main
begin

section \<open>JavaScript numbers\<close>

text \<open>
  The library computes on JavaScript numbers. The embedding keeps the four kinds of value
  an IEEE double can be: a finite number, the two infinities and NaN. Finite numbers are
  modelled as reals, so rounding and the sign of zero are not modelled (a zero divisor is
  read as +0), and overflow to an infinity is modelled only for the sum and the quotient
  of the kernel factory (\<open>jadd_ovf\<close> and \<open>jdiv_ovf\<close> below). Division never throws in
  JavaScript: a zero divisor gives an infinity or NaN, and the functions below say which.
\<close>

datatype jsnum = Fin real | PInf | NInf | NaN

fun jneg :: "jsnum \<Rightarrow> jsnum" where
  "jneg (Fin a) = Fin (- a)"
| "jneg PInf = NInf"
| "jneg NInf = PInf"
| "jneg NaN = NaN"

fun jadd :: "jsnum \<Rightarrow> jsnum \<Rightarrow> jsnum" where
  "jadd (Fin a) (Fin b) = Fin (a + b)"
| "jadd NaN b = NaN"
| "jadd a NaN = NaN"
| "jadd PInf NInf = NaN"
| "jadd NInf PInf = NaN"
| "jadd PInf b = PInf"
| "jadd a PInf = PInf"
| "jadd NInf b = NInf"
| "jadd a NInf = NInf"

definition jsub :: "jsnum \<Rightarrow> jsnum \<Rightarrow> jsnum" where
  "jsub a b = jadd a (jneg b)"

text \<open>The sign of an infinite product or quotient: \<open>signed True\<close> is \<open>+Infinity\<close>.\<close>

definition signed :: "bool \<Rightarrow> jsnum" where
  "signed pos = (if pos then PInf else NInf)"

fun jmul :: "jsnum \<Rightarrow> jsnum \<Rightarrow> jsnum" where
  "jmul (Fin a) (Fin b) = Fin (a * b)"
| "jmul NaN b = NaN"
| "jmul a NaN = NaN"
| "jmul (Fin a) PInf = (if a = 0 then NaN else signed (0 < a))"
| "jmul (Fin a) NInf = (if a = 0 then NaN else signed (a < 0))"
| "jmul PInf (Fin b) = (if b = 0 then NaN else signed (0 < b))"
| "jmul NInf (Fin b) = (if b = 0 then NaN else signed (b < 0))"
| "jmul PInf PInf = PInf"
| "jmul PInf NInf = NInf"
| "jmul NInf PInf = NInf"
| "jmul NInf NInf = PInf"

fun jdiv :: "jsnum \<Rightarrow> jsnum \<Rightarrow> jsnum" where
  "jdiv (Fin a) (Fin b) =
     (if b \<noteq> 0 then Fin (a / b) else if a = 0 then NaN else signed (0 < a))"
| "jdiv NaN b = NaN"
| "jdiv a NaN = NaN"
| "jdiv (Fin a) PInf = Fin 0"
| "jdiv (Fin a) NInf = Fin 0"
| "jdiv PInf (Fin b) = signed (0 \<le> b)"
| "jdiv NInf (Fin b) = signed (b < 0)"
| "jdiv PInf PInf = NaN"
| "jdiv PInf NInf = NaN"
| "jdiv NInf PInf = NaN"
| "jdiv NInf NInf = NaN"

text \<open>
  Overflow. A double holds no finite number of magnitude \<open>2^1024 - 2^970\<close> or more: from
  there on a result rounds to an infinity. The operations above do not follow this; the
  two below do. They are the \<open>+\<close> and the \<open>/\<close> of the kernel factory, the one place where the
  size of the numbers grows with an argument. Rounding below the bound is still not
  modelled there, so what is proved of the factory's results is confined to arguments
  for which every number computed is one that a double holds exactly.
\<close>

definition overflowBound :: real where
  "overflowBound = 2 ^ 1024 - 2 ^ 970"

definition overflow :: "jsnum \<Rightarrow> jsnum" where
  "overflow x =
     (case x of
        Fin a \<Rightarrow> if overflowBound \<le> a then PInf else if a \<le> - overflowBound then NInf else Fin a
      | PInf \<Rightarrow> PInf
      | NInf \<Rightarrow> NInf
      | NaN \<Rightarrow> NaN)"

definition jadd_ovf :: "jsnum \<Rightarrow> jsnum \<Rightarrow> jsnum" where
  "jadd_ovf a b = overflow (jadd a b)"

definition jdiv_ovf :: "jsnum \<Rightarrow> jsnum \<Rightarrow> jsnum" where
  "jdiv_ovf a b = overflow (jdiv a b)"

text \<open>\<open>a < b\<close>: false as soon as one side is NaN.\<close>

fun jlt :: "jsnum \<Rightarrow> jsnum \<Rightarrow> bool" where
  "jlt (Fin a) (Fin b) = (a < b)"
| "jlt NaN b = False"
| "jlt a NaN = False"
| "jlt a NInf = False"
| "jlt PInf b = False"
| "jlt NInf b = True"
| "jlt a PInf = True"

definition jgt :: "jsnum \<Rightarrow> jsnum \<Rightarrow> bool" where
  "jgt a b = jlt b a"

fun Math_abs :: "jsnum \<Rightarrow> jsnum" where
  "Math_abs (Fin a) = Fin \<bar>a\<bar>"
| "Math_abs PInf = PInf"
| "Math_abs NInf = PInf"
| "Math_abs NaN = NaN"

text \<open>\<open>Math.min\<close> and \<open>Math.max\<close> give NaN as soon as one argument is NaN.\<close>

fun Math_min :: "jsnum \<Rightarrow> jsnum \<Rightarrow> jsnum" where
  "Math_min NaN b = NaN"
| "Math_min a NaN = NaN"
| "Math_min a b = (if jlt b a then b else a)"

fun Math_max :: "jsnum \<Rightarrow> jsnum \<Rightarrow> jsnum" where
  "Math_max NaN b = NaN"
| "Math_max a NaN = NaN"
| "Math_max a b = (if jlt a b then b else a)"

fun Math_sqrt :: "jsnum \<Rightarrow> jsnum" where
  "Math_sqrt (Fin a) = (if a < 0 then NaN else Fin (sqrt a))"
| "Math_sqrt PInf = PInf"
| "Math_sqrt NInf = NaN"
| "Math_sqrt NaN = NaN"

text \<open>\<open>Math.pow(a, 2)\<close>, the only power the library takes.\<close>

fun Math_pow2 :: "jsnum \<Rightarrow> jsnum" where
  "Math_pow2 (Fin a) = Fin (a * a)"
| "Math_pow2 PInf = PInf"
| "Math_pow2 NInf = PInf"
| "Math_pow2 NaN = NaN"

text \<open>
  \<open>parseInt(x)\<close> on a number prints it and reads the digits before the first character
  that is not a digit. For \<open>x = 0\<close> and for \<open>1e-6 \<le> |x| < 1e21\<close> the print is plain
  decimal and the result is \<open>x\<close> truncated toward zero. Outside that range the print is
  in exponent notation and the result is the leading digit of the mantissa, which the
  model does not follow (\<open>None\<close>); it is never zero there.
\<close>

definition parseInt :: "real \<Rightarrow> int option" where
  "parseInt x =
     (if x = 0 then Some 0
      else if 1 / 10 ^ 6 \<le> \<bar>x\<bar> \<and> \<bar>x\<bar> < 10 ^ 21
      then Some (if 0 \<le> x then \<lfloor>x\<rfloor> else \<lceil>x\<rceil>)
      else None)"

section \<open>Errors and sequencing\<close>

text \<open>
  What the source throws, by class (message texts are dropped). The strings that
  \<open>Imager\<close> throws are named after their prefix. \<open>OutOfModel\<close> is not an exception of
  the source: it marks the places where JavaScript goes on with \<open>undefined\<close>, grows an
  array or coerces an array to a string, because the stored arrays do not have the shape
  that \<open>rows\<close>, \<open>cols\<close> and \<open>chls\<close> announce. The typed store below cannot hold such
  values, so the model stops there and says nothing about the run.
\<close>

datatype error =
    TypeError | RangeError | ReferenceError | Error
  | ConvolutionError | GrayError | LightError | DodgeError | BurnError
  | OutOfModel

definition bnd :: "error + 'a \<Rightarrow> ('a \<Rightarrow> error + 'b) \<Rightarrow> error + 'b" where
  "bnd x f = (case x of Inl e \<Rightarrow> Inl e | Inr v \<Rightarrow> f v)"

text \<open>A \<open>for\<close> loop over a list of indices, left at the first throw.\<close>

fun foldE :: "('a \<Rightarrow> 's \<Rightarrow> error + 's) \<Rightarrow> 'a list \<Rightarrow> 's \<Rightarrow> error + 's" where
  "foldE f [] s = Inr s"
| "foldE f (x # xs) s = bnd (f x s) (foldE f xs)"

text \<open>A loop that builds an array, one element per index.\<close>

fun mapE :: "('a \<Rightarrow> error + 'b) \<Rightarrow> 'a list \<Rightarrow> error + 'b list" where
  "mapE f [] = Inr []"
| "mapE f (x # xs) = bnd (f x) (\<lambda>y. bnd (mapE f xs) (\<lambda>ys. Inr (y # ys)))"

section \<open>Matrix\<close>

text \<open>
  A cell \<open>this.m[i][j]\<close> is a number (single-channel matrices) or an array of numbers
  (one per channel). The fields are the public properties \<open>m\<close>, \<open>rows\<close>, \<open>cols\<close>, \<open>chls\<close>
  that the methods read and write. Methods mutate \<open>this\<close> and return it; a model
  function takes the object and returns the updated one, or the error thrown. The
  objects passed to one call are taken to be distinct and to share no arrays.
\<close>

datatype cell = Num jsnum | Arr "jsnum list"

record matrix =
  m :: "cell list list"
  rows :: int
  cols :: int
  chls :: int

text \<open>The raw reads \<open>this.m[i]\<close> and \<open>this.m[i][j]\<close>; \<open>None\<close> is \<open>undefined\<close>.\<close>

definition rowAt :: "matrix \<Rightarrow> int \<Rightarrow> cell list option" where
  "rowAt M i = (if 0 \<le> i \<and> nat i < length (m M) then Some (m M ! nat i) else None)"

definition cellAt :: "matrix \<Rightarrow> int \<Rightarrow> int \<Rightarrow> cell option" where
  "cellAt M i j =
     (case rowAt M i of
        None \<Rightarrow> None
      | Some r \<Rightarrow> if 0 \<le> j \<and> nat j < length r then Some (r ! nat j) else None)"

text \<open>The raw write \<open>this.m[i][j] = c\<close> to a cell that exists.\<close>

definition putCell :: "matrix \<Rightarrow> int \<Rightarrow> int \<Rightarrow> cell \<Rightarrow> matrix" where
  "putCell M i j c = M\<lparr>m := (m M)[nat i := (m M ! nat i)[nat j := c]]\<rparr>"

text \<open>
  \<open>get(i, j, k)\<close> branches on \<open>k !== undefined\<close>: \<open>get3\<close> is the branch with a channel,
  \<open>get2\<close> the branch without, which returns the whole cell.
\<close>

definition get3 :: "matrix \<Rightarrow> int \<Rightarrow> int \<Rightarrow> int \<Rightarrow> error + jsnum" where
  "get3 M i j k =
     (if i \<ge> rows M \<or> j \<ge> cols M \<or> k \<ge> chls M \<or> i < 0 \<or> j < 0 \<or> k < 0 then Inl RangeError
      else (case cellAt M i j of
              Some (Arr xs) \<Rightarrow> if nat k < length xs then Inr (xs ! nat k) else Inl OutOfModel
            | _ \<Rightarrow> Inl OutOfModel))"

definition get2 :: "matrix \<Rightarrow> int \<Rightarrow> int \<Rightarrow> error + cell" where
  "get2 M i j =
     (if i \<ge> rows M \<or> j \<ge> cols M \<or> i < 0 \<or> j < 0 then Inl RangeError
      else (case cellAt M i j of Some c \<Rightarrow> Inr c | None \<Rightarrow> Inl OutOfModel))"

text \<open>
  \<open>set(i, j, v, k)\<close>, again by \<open>k !== undefined\<close>. Out of range, the branch without a
  channel runs \<open>throw new new RangeError(...)\<close>: the outer \<open>new\<close> is applied to the
  error object, which is not a constructor, so a TypeError is thrown.
\<close>

definition set3 :: "matrix \<Rightarrow> int \<Rightarrow> int \<Rightarrow> jsnum \<Rightarrow> int \<Rightarrow> error + matrix" where
  "set3 M i j v k =
     (if i \<ge> rows M \<or> j \<ge> cols M \<or> k \<ge> chls M \<or> i < 0 \<or> j < 0 \<or> k < 0 then Inl RangeError
      else (case cellAt M i j of
              Some (Arr xs) \<Rightarrow>
                if nat k < length xs then Inr (putCell M i j (Arr (xs[nat k := v])))
                else Inl OutOfModel
            | _ \<Rightarrow> Inl OutOfModel))"

definition set2 :: "matrix \<Rightarrow> int \<Rightarrow> int \<Rightarrow> cell \<Rightarrow> error + matrix" where
  "set2 M i j c =
     (if i \<ge> rows M \<or> j \<ge> cols M \<or> i < 0 \<or> j < 0 then Inl TypeError
      else (case cellAt M i j of Some old \<Rightarrow> Inr (putCell M i j c) | None \<Rightarrow> Inl OutOfModel))"

text \<open>
  \<open>Array(n)\<close> throws a RangeError unless \<open>n\<close> is an integer from 0 to \<open>2^32 - 1\<close>.
\<close>

definition Array_new :: "real \<Rightarrow> error + nat" where
  "Array_new n =
     (if of_int \<lfloor>n\<rfloor> = n \<and> 0 \<le> n \<and> n \<le> 2 ^ 32 - 1 then Inr (nat \<lfloor>n\<rfloor>)
      else Inl RangeError)"

text \<open>\<open>xs.push(v)\<close>, which throws a RangeError on an array of \<open>2^32 - 1\<close> entries.\<close>

definition push :: "'a list \<Rightarrow> 'a \<Rightarrow> error + 'a list" where
  "push xs v = (if int (length xs) < 2 ^ 32 - 1 then Inr (xs @ [v]) else Inl RangeError)"

text \<open>
  \<open>generate(rows, cols, chls, v = 0)\<close>. The check is \<open>!parseInt(x)\<close> for each dimension,
  which holds exactly when \<open>parseInt\<close> gives 0. The fields are then set from \<open>parseInt\<close>,
  while the arrays are allocated and the loops bounded with the arguments as given.
  Every field is overwritten, so the model builds the object afresh.
\<close>

definition generate :: "real \<Rightarrow> real \<Rightarrow> real \<Rightarrow> jsnum option \<Rightarrow> error + matrix" where
  "generate rws cls chs vo =
     (let v = (case vo of None \<Rightarrow> Fin 0 | Some x \<Rightarrow> x) in
      if parseInt rws = Some 0 \<or> parseInt cls = Some 0 \<or> parseInt chs = Some 0 then Inl TypeError
      else (case (parseInt rws, parseInt cls, parseInt chs) of
              (Some r, Some c, Some ch) \<Rightarrow>
                bnd (Array_new rws) (\<lambda>nr.
                bnd (mapE (\<lambda>ri.
                       bnd (Array_new cls) (\<lambda>nc.
                       mapE (\<lambda>ci.
                         if chs > 1
                         then bnd (Array_new chs) (\<lambda>nch. Inr (Arr (replicate nch v)))
                         else Inr (Num v)) [0..<nc])) [0..<nr]) (\<lambda>mm.
                Inr \<lparr>m = mm, rows = r, cols = c, chls = ch\<rparr>))
            | _ \<Rightarrow> Inl OutOfModel))"

text \<open>
  \<open>load(m)\<close> takes a 2D or 3D array literal. \<open>Array.isArray(m[0])\<close> fails on the empty
  array; \<open>chls\<close> is the length of \<open>m[0][0]\<close> when that is an array, else 1.
\<close>

definition load :: "cell list list \<Rightarrow> error + matrix" where
  "load lit =
     (case lit of
        [] \<Rightarrow> Inl TypeError
      | r0 # _ \<Rightarrow>
          Inr \<lparr>m = lit, rows = int (length lit), cols = int (length r0),
               chls = (case r0 of Arr xs # _ \<Rightarrow> int (length xs) | _ \<Rightarrow> 1)\<rparr>)"

text \<open>
  The constructor with sizes, \<open>new Matrix(rows, cols, chls = 1)\<close>, calls
  \<open>generate(rows, cols, chls)\<close>; \<open>zeros(rows, cols, chls)\<close> with its sizes given calls
  \<open>generate(rows, cols, chls, 0)\<close>.
\<close>

definition Matrix_new :: "real \<Rightarrow> real \<Rightarrow> real option \<Rightarrow> error + matrix" where
  "Matrix_new rws cls chso = generate rws cls (case chso of None \<Rightarrow> 1 | Some c \<Rightarrow> c) None"

definition zeros :: "real \<Rightarrow> real \<Rightarrow> real \<Rightarrow> error + matrix" where
  "zeros rws cls chs = generate rws cls chs (Some (Fin 0))"

text \<open>
  \<open>apply(callback)\<close>: every \<open>(i, j)\<close>, rows outermost. The callbacks of this library
  never change \<open>rows\<close> or \<open>cols\<close>, so the bounds are those of the matrix the loop starts
  on. \<open>applyAllPixels\<close> adds the channels 0, 1, 2; \<open>applyAll\<close> adds every channel, or
  calls back without a channel on a single-channel matrix.
\<close>

definition applyM :: "matrix \<Rightarrow> (int \<Rightarrow> int \<Rightarrow> 's \<Rightarrow> error + 's) \<Rightarrow> 's \<Rightarrow> error + 's" where
  "applyM M cb s = foldE (\<lambda>i. foldE (\<lambda>j. cb i j) [0..cols M - 1]) [0..rows M - 1] s"

definition applyAllPixels ::
  "matrix \<Rightarrow> (int \<Rightarrow> int \<Rightarrow> int \<Rightarrow> 's \<Rightarrow> error + 's) \<Rightarrow> 's \<Rightarrow> error + 's" where
  "applyAllPixels M cb s = applyM M (\<lambda>i j. foldE (\<lambda>k. cb i j k) [0, 1, 2]) s"

definition applyAll ::
  "matrix \<Rightarrow> (int \<Rightarrow> int \<Rightarrow> int option \<Rightarrow> 's \<Rightarrow> error + 's) \<Rightarrow> 's \<Rightarrow> error + 's" where
  "applyAll M cb s =
     foldE (\<lambda>i. foldE (\<lambda>j.
       if chls M > 1 then foldE (\<lambda>k. cb i j (Some k)) [0..chls M - 1] else cb i j None)
       [0..cols M - 1]) [0..rows M - 1] s"

text \<open>
  \<open>extrude(chls)\<close>. A single-channel cell becomes \<open>Array(chls).fill(this.get(i, j))\<close>;
  otherwise the last channel \<open>this.m[i][j][this.chls - 1]\<close> is pushed until the cell
  has \<open>chls\<close> entries. The second branch reads the arrays directly.
\<close>

definition extrude :: "matrix \<Rightarrow> int \<Rightarrow> error + matrix" where
  "extrude M n =
     (if n \<le> 1 then Inl RangeError
      else if n < chls M then Inl RangeError
      else bnd
        (if chls M = 1
         then applyM M (\<lambda>i j s.
                bnd (get2 s i j) (\<lambda>c.
                  case c of
                    Num v \<Rightarrow>
                      bnd (Array_new (of_int n)) (\<lambda>len. set2 s i j (Arr (replicate len v)))
                  | Arr xs \<Rightarrow> Inl OutOfModel)) M
         else applyM M (\<lambda>i j s.
                case cellAt s i j of
                  Some (Arr xs) \<Rightarrow>
                    if 0 \<le> chls M - 1 \<and> nat (chls M - 1) < length xs
                    then bnd (foldE (\<lambda>n' ys. push ys (xs ! nat (chls M - 1))) [chls M..n - 1] xs)
                           (\<lambda>ys. Inr (putCell s i j (Arr ys)))
                    else Inl OutOfModel
                | _ \<Rightarrow> Inl OutOfModel) M)
        (\<lambda>M'. Inr (M'\<lparr>chls := n\<rparr>)))"

text \<open>
  The shape invariant of a matrix: \<open>rows\<close> rows of \<open>cols\<close> cells, each cell a number
  when \<open>chls = 1\<close> and an array of \<open>chls\<close> numbers otherwise, the lengths being lengths
  of JavaScript arrays.
\<close>

definition wfCell :: "int \<Rightarrow> cell \<Rightarrow> bool" where
  "wfCell ch c = (case c of Num v \<Rightarrow> ch = 1 | Arr xs \<Rightarrow> 1 < ch \<and> int (length xs) = ch)"

definition wfMatrix :: "matrix \<Rightarrow> bool" where
  "wfMatrix M \<longleftrightarrow>
     1 \<le> chls M \<and> chls M < 2 ^ 32 \<and> 0 \<le> rows M \<and> rows M < 2 ^ 32 \<and>
     0 \<le> cols M \<and> cols M < 2 ^ 32 \<and>
     int (length (m M)) = rows M \<and>
     list_all (\<lambda>r. int (length r) = cols M \<and> list_all (wfCell (chls M)) r) (m M)"

text \<open>
  Arithmetic on a cell read with \<open>get(i, j)\<close>: the cell has to be a number (JavaScript
  would turn an array into a string first).
\<close>

definition numOf :: "cell \<Rightarrow> error + jsnum" where
  "numOf c = (case c of Num v \<Rightarrow> Inr v | Arr xs \<Rightarrow> Inl OutOfModel)"

text \<open>
  \<open>getSize()\<close> tests \<open>chls === 1\<close>, a variable that is declared nowhere (the field is
  \<open>this.chls\<close>): every call throws a ReferenceError.
\<close>

definition getSize :: "matrix \<Rightarrow> error + string" where
  "getSize M = Inl ReferenceError"

text \<open>\<open>fillAlpha(a)\<close> sets channel 3 of every cell.\<close>

definition fillAlpha :: "jsnum \<Rightarrow> matrix \<Rightarrow> error + matrix" where
  "fillAlpha a M = applyM M (\<lambda>i j s. set3 s i j a 3) M"

text \<open>\<open>copy(to, offset)\<close> writes every cell of \<open>this\<close> into \<open>to\<close> and returns \<open>to\<close>.\<close>

definition copy :: "matrix \<Rightarrow> matrix \<Rightarrow> int \<Rightarrow> int \<Rightarrow> error + matrix" where
  "copy src to oi oj =
     applyM src (\<lambda>i j t. bnd (get2 src i j) (\<lambda>c. set2 t (i + oi) (j + oj) c)) to"

text \<open>
  \<open>isWhite()\<close>: false unless there are 3 or 4 channels; else whether every colour
  channel is \<open>=== 1\<close> (the \<open>return\<close> in the callback leaves the callback only).
\<close>

definition isWhite :: "matrix \<Rightarrow> error + bool" where
  "isWhite M =
     (if chls M \<noteq> 3 \<and> chls M \<noteq> 4 then Inr False
      else applyAllPixels M (\<lambda>i j k flag.
             bnd (get3 M i j k) (\<lambda>v. Inr (if v \<noteq> Fin 1 then False else flag))) True)"

text \<open>\<open>swapCol\<close>, \<open>swapRow\<close> and the flips work on the arrays directly.\<close>

definition swapCol :: "matrix \<Rightarrow> int \<Rightarrow> int \<Rightarrow> error + matrix" where
  "swapCol M j j2 =
     foldE (\<lambda>i s.
       case (cellAt s i j, cellAt s i j2) of
         (Some a, Some b) \<Rightarrow> Inr (putCell (putCell s i j b) i j2 a)
       | _ \<Rightarrow> Inl OutOfModel) [0..rows M - 1] M"

definition swapRow :: "matrix \<Rightarrow> int \<Rightarrow> int \<Rightarrow> error + matrix" where
  "swapRow M i i2 =
     (case (rowAt M i, rowAt M i2) of
        (Some a, Some b) \<Rightarrow> Inr (M\<lparr>m := (m M)[nat i := b, nat i2 := a]\<rparr>)
      | _ \<Rightarrow> Inl OutOfModel)"

text \<open>
  \<open>flipX\<close> loops while \<open>j < Math.floor(this.cols) / 2\<close>, so on an odd number of columns
  the middle column is swapped with itself.
\<close>

definition flipX :: "matrix \<Rightarrow> error + matrix" where
  "flipX M =
     foldE (\<lambda>j s. swapCol s j (cols M - j - 1))
       (takeWhile (\<lambda>j. real_of_int j < real_of_int (cols M) / 2) [0..cols M - 1]) M"

definition flipY :: "matrix \<Rightarrow> error + matrix" where
  "flipY M =
     foldE (\<lambda>i s. swapRow s i (rows M - i - 1))
       (takeWhile (\<lambda>i. real_of_int i < real_of_int (rows M) / 2) [0..rows M - 1]) M"

definition flipXY :: "matrix \<Rightarrow> error + matrix" where
  "flipXY M = bnd (flipX M) flipY"

text \<open>
  \<open>div(v)\<close> divides every entry in place, after the check \<open>v == 0\<close>; the callback
  works on the arrays directly. Of the functions embedded here only the kernel factory
  calls it, so the quotient is the one with overflow.
\<close>

definition divM :: "matrix \<Rightarrow> jsnum \<Rightarrow> error + matrix" where
  "divM M v =
     (if v = Fin 0 then Inl RangeError
      else applyAll M (\<lambda>i j ko s.
             case ko of
               Some k \<Rightarrow>
                 (case cellAt s i j of
                    Some (Arr xs) \<Rightarrow>
                      if 0 \<le> k \<and> nat k < length xs
                      then Inr (putCell s i j (Arr (xs[nat k := jdiv_ovf (xs ! nat k) v])))
                      else Inl OutOfModel
                  | _ \<Rightarrow> Inl OutOfModel)
             | None \<Rightarrow>
                 (case cellAt s i j of
                    Some (Num x) \<Rightarrow> Inr (putCell s i j (Num (jdiv_ovf x v)))
                  | _ \<Rightarrow> Inl OutOfModel)) M)"

text \<open>\<open>accum(i, j, v)\<close> without a channel: \<open>this.set(i, j, this.get(i, j) + v)\<close>.\<close>

definition accum2 :: "matrix \<Rightarrow> int \<Rightarrow> int \<Rightarrow> jsnum \<Rightarrow> error + matrix" where
  "accum2 M i j v =
     bnd (get2 M i j) (\<lambda>c. bnd (numOf c) (\<lambda>x. set2 M i j (Num (jadd x v))))"

text \<open>
  \<open>mmul(B)\<close>. The message of the size error calls \<open>getSize()\<close>, so that throw never
  happens: the ReferenceError comes first. The product is allocated with
  \<open>new Matrix(this.cols, B.rows)\<close>, filled by
  \<open>prod.accum(i, j, this.get(k, j) * B.get(i, k))\<close> and copied into \<open>this\<close>.
\<close>

definition mmul :: "matrix \<Rightarrow> matrix \<Rightarrow> error + matrix" where
  "mmul A B =
     (if chls A > 1 \<or> chls B > 1 then Inl Error
      else if cols A \<noteq> rows B
      then bnd (getSize A) (\<lambda>sa. bnd (getSize B) (\<lambda>sb. Inl Error))
      else bnd (Matrix_new (of_int (cols A)) (of_int (rows B)) None) (\<lambda>prod.
           bnd (foldE (\<lambda>i. foldE (\<lambda>j. foldE (\<lambda>k p.
                  bnd (get2 A k j) (\<lambda>a. bnd (get2 B i k) (\<lambda>b.
                  bnd (numOf a) (\<lambda>x. bnd (numOf b) (\<lambda>y. accum2 p i j (jmul x y))))))
                  [0..cols B - 1]) [0..cols A - 1]) [0..rows A - 1] prod) (\<lambda>prod'.
           copy prod' A 0 0)))"

text \<open>
  \<open>setPixel(i, j, r, g, b, a)\<close>; \<open>a\<close> is optional, and the alpha channel is written only
  when it is given and there are 4 channels or more.
\<close>

definition setPixel ::
  "matrix \<Rightarrow> int \<Rightarrow> int \<Rightarrow> jsnum \<Rightarrow> jsnum \<Rightarrow> jsnum \<Rightarrow> jsnum option \<Rightarrow> error + matrix" where
  "setPixel M i j r g b ao =
     (if chls M < 3 then Inl Error
      else if ao = None \<and> (i \<ge> rows M \<or> j \<ge> cols M \<or> i < 0 \<or> j < 0) then Inl RangeError
      else bnd (set3 M i j r 0) (\<lambda>M1. bnd (set3 M1 i j g 1) (\<lambda>M2. bnd (set3 M2 i j b 2) (\<lambda>M3.
           case ao of
             Some a \<Rightarrow> if chls M \<ge> 4 then set3 M3 i j a 3 else Inr M3
           | None \<Rightarrow> Inr M3))))"

section \<open>Kernels\<close>

text \<open>
  \<open>pascal(n)\<close>: \<open>[1]\<close> for 1, \<open>[1, 1]\<close> for 2, and else \<open>[1, 1]\<close> rewritten once for each
  \<open>i\<close> from 2 to \<open>n - 1\<close> into the sums of its neighbours between two 1s.
\<close>

definition pascal_step :: "jsnum list \<Rightarrow> jsnum list" where
  "pascal_step ans =
     Fin 1 # map (\<lambda>j. jadd_ovf (ans ! j) (ans ! (j + 1))) [0..<length ans - 1] @ [Fin 1]"

definition pascal :: "int \<Rightarrow> jsnum list" where
  "pascal n =
     (if n = 1 then [Fin 1]
      else if n = 2 then [Fin 1, Fin 1]
      else foldl (\<lambda>ans i. pascal_step ans) [Fin 1, Fin 1] [2..n - 1])"

text \<open>
  \<open>gaussianBlur(size)\<close>: the row kernel \<open>new Matrix([row])\<close>, the column kernel built
  from one-element rows, both divided by the sum of \<open>w[0].get(0, i)\<close> for \<open>i < size\<close>.
\<close>

definition gaussianBlur :: "int \<Rightarrow> error + matrix list" where
  "gaussianBlur sz =
     (let row = pascal sz in
      bnd (load [map Num row]) (\<lambda>w0.
      bnd (load (map (\<lambda>n. [Num n]) row)) (\<lambda>w1.
      bnd (foldE (\<lambda>i sum. bnd (get2 w0 0 i) (\<lambda>c. bnd (numOf c) (\<lambda>x. Inr (jadd_ovf sum x))))
             [0..sz - 1] (Fin 0)) (\<lambda>sum.
      bnd (divM w0 sum) (\<lambda>w0'.
      bnd (divM w1 sum) (\<lambda>w1'.
      Inr [w0', w1']))))))"

definition Kernel_identity :: "error + matrix" where
  "Kernel_identity =
     load [[Num (Fin 0), Num (Fin 0), Num (Fin 0)],
           [Num (Fin 0), Num (Fin 1), Num (Fin 0)],
           [Num (Fin 0), Num (Fin 0), Num (Fin 0)]]"

definition Kernel_prewitt :: "error + matrix" where
  "Kernel_prewitt =
     bnd (load [[Num (Fin 1), Num (Fin 0), Num (Fin (- 1))],
                [Num (Fin 1), Num (Fin 0), Num (Fin (- 1))],
                [Num (Fin 1), Num (Fin 0), Num (Fin (- 1))]]) (\<lambda>A.
     bnd (load [[Num (Fin 1), Num (Fin 1), Num (Fin 1)],
                [Num (Fin 0), Num (Fin 0), Num (Fin 0)],
                [Num (Fin (- 1)), Num (Fin (- 1)), Num (Fin (- 1))]]) (\<lambda>B.
     mmul A B))"

section \<open>Imager\<close>

text \<open>
  The methods of \<open>Imager\<close> take the matrices they work on as arguments and mutate them.
  A model function returns the updated first operand; where the source also mutates the
  second one (\<open>dodge\<close> inverts its filter, \<open>convolution\<close> extrudes and flips its kernel),
  it returns both.
\<close>

definition clip :: "jsnum \<Rightarrow> jsnum \<Rightarrow> jsnum \<Rightarrow> jsnum" where
  "clip val lo hi = (if jlt val lo then lo else if jgt val hi then hi else val)"

text \<open>\<open>normalize(A)\<close> clips every entry to the range from 0 to 1.\<close>

definition normalizeM :: "matrix \<Rightarrow> error + matrix" where
  "normalizeM A =
     applyAll A (\<lambda>i j ko s.
       case ko of
         Some k \<Rightarrow> bnd (get3 s i j k) (\<lambda>v. set3 s i j (clip v (Fin 0) (Fin 1)) k)
       | None \<Rightarrow>
           bnd (get2 s i j) (\<lambda>c. bnd (numOf c) (\<lambda>v.
             set2 s i j (Num (clip v (Fin 0) (Fin 1)))))) A"

text \<open>
  \<open>convolution(A, w)\<close>: the two checks on the kernel, the flip, the accumulator
  \<open>zeros(...).fillAlpha(1)\<close>, the padded copy of the image, the five nested loops, the
  clipping, and the copy of the accumulator back into \<open>A\<close>.
\<close>

definition convolution :: "matrix \<Rightarrow> matrix \<Rightarrow> error + (matrix \<times> matrix)" where
  "convolution A w =
     (if rows w mod 2 = 0 \<or> cols w mod 2 = 0 then Inl ConvolutionError
      else bnd (if chls w = 1 \<and> chls A > 1 then extrude w (chls A) else Inr w) (\<lambda>w1.
        if chls w1 \<noteq> chls A \<and> \<not> (chls A = 4 \<and> chls w1 = 3) then Inl ConvolutionError
        else bnd (flipXY w1) (\<lambda>w2.
          bnd (bnd (zeros (of_int (rows A)) (of_int (cols A)) (of_int (chls A))) (fillAlpha (Fin 1)))
            (\<lambda>accum.
          bnd (zeros (of_int (rows A + (rows w2 div 2) * 2))
                 (of_int (cols A + (cols w2 div 2) * 2)) (of_int (chls A))) (\<lambda>pad.
          bnd (copy A pad (rows w2 div 2) (cols w2 div 2)) (\<lambda>pad'.
          bnd (foldE (\<lambda>i. foldE (\<lambda>j. foldE (\<lambda>k. foldE (\<lambda>wi. foldE (\<lambda>wj acc.
                 bnd (get3 acc i j k) (\<lambda>a.
                 bnd (get3 pad' (i + wi) (j + wj) k) (\<lambda>p.
                 bnd (get3 w2 wi wj k) (\<lambda>wv.
                 set3 acc i j (jadd a (jmul p wv)) k))))
                 [0..cols w2 - 1]) [0..rows w2 - 1]) [0..min (chls accum) 3 - 1])
                 [0..cols accum - 1]) [0..rows accum - 1] accum) (\<lambda>accum'.
          bnd (normalizeM accum') (\<lambda>accum''.
          bnd (copy accum'' A 0 0) (\<lambda>A'. Inr (A', w2))))))))))"

text \<open>
  \<open>crop(A, x1, y1, x2, y2)\<close>: a new matrix of \<open>|x2 - x1|\<close> rows and \<open>|y2 - y1|\<close> columns,
  filled from \<open>A.get(i + offX, j + offY)\<close>. \<open>A\<close> is only read.
\<close>

definition crop :: "matrix \<Rightarrow> int \<Rightarrow> int \<Rightarrow> int \<Rightarrow> int \<Rightarrow> error + matrix" where
  "crop A x1 y1 x2 y2 =
     (let offX = min x1 x2; offY = min y1 y2 in
      bnd (Matrix_new (of_int \<bar>x2 - x1\<bar>) (of_int \<bar>y2 - y1\<bar>) (Some (of_int (chls A)))) (\<lambda>cr.
      applyM cr (\<lambda>i j s. bnd (get2 A (i + offX) (j + offY)) (\<lambda>c. set2 s i j c)) cr))"

definition invert :: "matrix \<Rightarrow> error + matrix" where
  "invert A =
     applyM A (\<lambda>i j s.
       bnd (get3 s i j 0) (\<lambda>r. bnd (get3 s i j 1) (\<lambda>g. bnd (get3 s i j 2) (\<lambda>b.
       setPixel s i j (jsub (Fin 1) r) (jsub (Fin 1) g) (jsub (Fin 1) b) None)))) A"

subsection \<open>Blends\<close>

text \<open>
  Each blend runs \<open>A.applyAllPixels\<close> with a callback that reads \<open>A\<close> and \<open>B\<close> at
  \<open>(i, j, k)\<close> and writes \<open>A\<close> there. The reads are listed in the order of the source.
\<close>

definition addition :: "matrix \<Rightarrow> matrix \<Rightarrow> error + matrix" where
  "addition A B =
     applyAllPixels A (\<lambda>i j k s.
       bnd (get3 s i j k) (\<lambda>a. bnd (get3 B i j k) (\<lambda>b. set3 s i j (jadd a b) k))) A"

definition subtraction :: "matrix \<Rightarrow> matrix \<Rightarrow> error + matrix" where
  "subtraction A B =
     applyAllPixels A (\<lambda>i j k s.
       bnd (get3 s i j k) (\<lambda>a. bnd (get3 B i j k) (\<lambda>b. set3 s i j (jsub a b) k))) A"

definition multiply :: "matrix \<Rightarrow> matrix \<Rightarrow> error + matrix" where
  "multiply A B =
     applyAllPixels A (\<lambda>i j k s.
       bnd (get3 s i j k) (\<lambda>a. bnd (get3 B i j k) (\<lambda>b. set3 s i j (jmul a b) k))) A"

definition divide_blend :: "matrix \<Rightarrow> matrix \<Rightarrow> error + matrix" where
  "divide_blend A B =
     applyAllPixels A (\<lambda>i j k s.
       bnd (get3 s i j k) (\<lambda>a. bnd (get3 B i j k) (\<lambda>b. set3 s i j (jdiv a b) k))) A"

definition difference :: "matrix \<Rightarrow> matrix \<Rightarrow> error + matrix" where
  "difference A B =
     applyAllPixels A (\<lambda>i j k s.
       bnd (get3 s i j k) (\<lambda>a. bnd (get3 B i j k) (\<lambda>b.
       set3 s i j (Math_abs (jadd a b)) k))) A"

definition screen :: "matrix \<Rightarrow> matrix \<Rightarrow> error + matrix" where
  "screen A B =
     applyAllPixels A (\<lambda>i j k s.
       bnd (get3 s i j k) (\<lambda>a. bnd (get3 B i j k) (\<lambda>b.
       set3 s i j (jsub (Fin 1) (jmul (jsub (Fin 1) a) (jsub (Fin 1) b))) k))) A"

text \<open>The callback of \<open>overlay\<close>, which \<open>light\<close> repeats for its \<open>hard\<close> mode.\<close>

definition overlay_cb :: "matrix \<Rightarrow> int \<Rightarrow> int \<Rightarrow> int \<Rightarrow> matrix \<Rightarrow> error + matrix" where
  "overlay_cb B i j k s =
     bnd (get3 s i j k) (\<lambda>a0.
       if jlt a0 (Fin (1 / 2))
       then bnd (get3 s i j k) (\<lambda>a. bnd (get3 B i j k) (\<lambda>b.
              set3 s i j (jmul (jmul (Fin 2) a) b) k))
       else bnd (get3 s i j k) (\<lambda>a. bnd (get3 B i j k) (\<lambda>b.
              set3 s i j (jsub (Fin 1) (jmul (jmul (Fin 2) (jsub (Fin 1) a)) (jsub (Fin 1) b))) k)))"

definition overlay :: "matrix \<Rightarrow> matrix \<Rightarrow> error + matrix" where
  "overlay A B = applyAllPixels A (overlay_cb B) A"

text \<open>
  \<open>normal\<close>: \<open>nuA = A.get(i, j, 3) + B.get(i, j, 3) * (1 - A.get(i, j, 3))\<close>, then
  channel \<open>k\<close> becomes
  \<open>(A.get(i, j, k) * A.get(i, j, 3) + B.get(i, j, k) * B.get(i, j, 3) * (1 - A.get(i, j, 3))) / nuA\<close>.
\<close>

definition normal :: "matrix \<Rightarrow> matrix \<Rightarrow> error + matrix" where
  "normal A B =
     applyAllPixels A (\<lambda>i j k s.
       bnd (get3 s i j 3) (\<lambda>aa1. bnd (get3 B i j 3) (\<lambda>ba1. bnd (get3 s i j 3) (\<lambda>aa2.
       let nuA = jadd aa1 (jmul ba1 (jsub (Fin 1) aa2)) in
       bnd (get3 s i j k) (\<lambda>ac. bnd (get3 s i j 3) (\<lambda>aa3.
       bnd (get3 B i j k) (\<lambda>bc. bnd (get3 B i j 3) (\<lambda>ba2. bnd (get3 s i j 3) (\<lambda>aa4.
       set3 s i j
         (jdiv (jadd (jmul ac aa3) (jmul (jmul bc ba2) (jsub (Fin 1) aa4))) nuA) k))))))))) A"

definition darken :: "matrix \<Rightarrow> matrix \<Rightarrow> error + matrix" where
  "darken A B =
     applyAllPixels A (\<lambda>i j k s.
       bnd (get3 s i j k) (\<lambda>a. bnd (get3 B i j k) (\<lambda>b. set3 s i j (Math_min a b) k))) A"

definition lighten :: "matrix \<Rightarrow> matrix \<Rightarrow> error + matrix" where
  "lighten A B =
     applyAllPixels A (\<lambda>i j k s.
       bnd (get3 s i j k) (\<lambda>a. bnd (get3 B i j k) (\<lambda>b. set3 s i j (Math_max a b) k))) A"

text \<open>\<open>burn(A, B, type)\<close> mutates \<open>A\<close> only.\<close>

definition burn :: "matrix \<Rightarrow> matrix \<Rightarrow> string \<Rightarrow> error + matrix" where
  "burn A B t =
     (if t = ''multiply'' then multiply A B
      else if t = ''color''
      then bnd (invert A) (\<lambda>A1. bnd (divide_blend A1 B) invert)
      else if t = ''linear''
      then applyAllPixels A (\<lambda>i j k s.
             bnd (get3 s i j k) (\<lambda>a. bnd (get3 B i j k) (\<lambda>b.
             set3 s i j (jsub (jadd a b) (Fin 1)) k))) A
      else Inl BurnError)"

text \<open>
  \<open>dodge(A, B, type)\<close> returns \<open>A\<close> and leaves \<open>B\<close> inverted twice in the modes
  \<open>screen\<close> and \<open>color\<close>; the mode \<open>divide\<close> calls \<open>dodge(A, B, 'color')\<close> unless
  \<open>B.isWhite()\<close>.
\<close>

function dodge :: "matrix \<Rightarrow> matrix \<Rightarrow> string \<Rightarrow> error + (matrix \<times> matrix)" where
  "dodge A B t =
     (if t = ''screen''
      then bnd (invert A) (\<lambda>A1. bnd (invert B) (\<lambda>B1. bnd (multiply A1 B1) (\<lambda>A2.
           bnd (invert A2) (\<lambda>A3. bnd (invert B1) (\<lambda>B2. Inr (A3, B2))))))
      else if t = ''color''
      then bnd (invert B) (\<lambda>B1. bnd (divide_blend A B1) (\<lambda>A1. bnd (invert B1) (\<lambda>B2.
           Inr (A1, B2))))
      else if t = ''linear'' then bnd (addition A B) (\<lambda>A1. Inr (A1, B))
      else if t = ''divide''
      then (case isWhite B of
              Inl e \<Rightarrow> Inl e
            | Inr white \<Rightarrow> if \<not> white then dodge A B ''color'' else Inr (A, B))
      else Inl DodgeError)"
  by pat_completeness auto
termination
  by (relation "measure (\<lambda>(A, B, t). if t = ''divide'' then 1 else 0)") auto

text \<open>
  \<open>light(A, B, type)\<close>: closed formulas for \<open>soft\<close> and \<open>hard\<close>, \<open>dodge\<close> followed by
  \<open>burn\<close> for \<open>vivid\<close> and \<open>linear\<close>.
\<close>

definition light :: "matrix \<Rightarrow> matrix \<Rightarrow> string \<Rightarrow> error + (matrix \<times> matrix)" where
  "light A B t =
     (if t = ''soft''
      then bnd (applyAllPixels A (\<lambda>i j k s.
             bnd (get3 s i j k) (\<lambda>a0.
               if jlt a0 (Fin (1 / 2))
               then bnd (get3 s i j k) (\<lambda>a1. bnd (get3 B i j k) (\<lambda>b1.
                    bnd (get3 s i j k) (\<lambda>a2. bnd (get3 B i j k) (\<lambda>b2.
                    set3 s i j (jadd (jmul (jmul (Fin 2) a1) b1)
                      (jmul (Math_pow2 a2) (jsub (Fin 1) (jmul (Fin 2) b2)))) k))))
               else bnd (get3 s i j k) (\<lambda>a1. bnd (get3 B i j k) (\<lambda>b1.
                    bnd (get3 s i j k) (\<lambda>a2. bnd (get3 B i j k) (\<lambda>b2.
                    set3 s i j (jadd (jmul (jmul (Fin 2) a1) (jsub (Fin 1) b1))
                      (jmul (Math_sqrt a2) (jsub (jmul (Fin 2) b2) (Fin 1)))) k)))))) A)
             (\<lambda>A1. Inr (A1, B))
      else if t = ''hard''
      then bnd (applyAllPixels A (overlay_cb B) A) (\<lambda>A1. Inr (A1, B))
      else if t = ''vivid''
      then bnd (dodge A B ''color'') (\<lambda>(A1, B1). bnd (burn A1 B1 ''color'') (\<lambda>A2. Inr (A2, B1)))
      else if t = ''linear''
      then bnd (dodge A B ''linear'') (\<lambda>(A1, B1). bnd (burn A1 B1 ''linear'') (\<lambda>A2. Inr (A2, B1)))
      else Inl LightError)"

section \<open>Notions for the statements and proofs\<close>

text \<open>
  These are not functions of the source. \<open>shaped\<close> is the part of the invariant that
  concerns the arrays only, \<open>inRange\<close> the index check that \<open>get\<close> and \<open>set\<close> make
  without a channel, \<open>cellsOf\<close> the order in which \<open>apply\<close> visits the cells, and
  \<open>valueAt\<close> the number stored for channel \<open>k\<close> of a cell, a single-channel cell being
  its own channel 0.
\<close>

definition shaped :: "matrix \<Rightarrow> bool" where
  "shaped M \<longleftrightarrow> int (length (m M)) = rows M \<and> list_all (\<lambda>r. int (length r) = cols M) (m M)"

definition inRange :: "matrix \<Rightarrow> int \<Rightarrow> int \<Rightarrow> bool" where
  "inRange M i j \<longleftrightarrow> 0 \<le> i \<and> i < rows M \<and> 0 \<le> j \<and> j < cols M"

definition cellsOf :: "matrix \<Rightarrow> (int \<times> int) list" where
  "cellsOf M = List.product [0..rows M - 1] [0..cols M - 1]"

definition valueAt :: "matrix \<Rightarrow> int \<Rightarrow> int \<Rightarrow> int \<Rightarrow> jsnum option" where
  "valueAt M i j k =
     (case cellAt M i j of
        Some (Num v) \<Rightarrow> if k = 0 then Some v else None
      | Some (Arr xs) \<Rightarrow> if 0 \<le> k \<and> nat k < length xs then Some (xs ! nat k) else None
      | None \<Rightarrow> None)"

text \<open>
  Row \<open>j\<close> of Pascal's triangle, counted from 0: the binomial coefficients
  \<open>j choose 0\<close>, ..., \<open>j choose j\<close>. The \<open>N\<close>-th row of the spec is \<open>pascalRow (N - 1)\<close>.
\<close>

definition pascalRow :: "nat \<Rightarrow> real list" where
  "pascalRow j = map (\<lambda>k. real (j choose k)) [0..<Suc j]"

text \<open>The kernels that \<open>gaussianBlur\<close> loads: one row, and one column.\<close>

definition rowKernel :: "real list \<Rightarrow> matrix" where
  "rowKernel xs = \<lparr>m = [map (\<lambda>x. Num (Fin x)) xs], rows = 1, cols = int (length xs), chls = 1\<rparr>"

definition colKernel :: "real list \<Rightarrow> matrix" where
  "colKernel xs = \<lparr>m = map (\<lambda>x. [Num (Fin x)]) xs, rows = int (length xs), cols = 1, chls = 1\<rparr>"

text \<open>
  The channel list of pixel \<open>(i, j)\<close>, and what a pass of \<open>applyAllPixels\<close> makes of it
  when its callback writes \<open>g k\<close> of the current list into channel \<open>k\<close>, for \<open>k\<close> = 0, 1, 2
  in turn.
\<close>

definition px :: "matrix \<Rightarrow> int \<Rightarrow> int \<Rightarrow> jsnum list" where
  "px M i j = (case cellAt M i j of Some (Arr xs) \<Rightarrow> xs | _ \<Rightarrow> [])"

definition pixelMap :: "(nat \<Rightarrow> jsnum list \<Rightarrow> jsnum) \<Rightarrow> jsnum list \<Rightarrow> jsnum list" where
  "pixelMap g xs =
     (let xs1 = xs[0 := g 0 xs]; xs2 = xs1[1 := g 1 xs1] in xs2[2 := g 2 xs2])"

text \<open>
  \<open>colourOnly A A'\<close>: \<open>A'\<close> is a matrix of the size of \<open>A\<close> whose pixels agree with those
  of \<open>A\<close> from channel 3 on.
\<close>

definition colourOnly :: "matrix \<Rightarrow> matrix \<Rightarrow> bool" where
  "colourOnly A A' \<longleftrightarrow>
     wfMatrix A' \<and> rows A' = rows A \<and> cols A' = cols A \<and> chls A' = chls A \<and>
     (\<forall>i j. inRange A i j \<longrightarrow>
        length (px A' i j) = length (px A i j) \<and> (\<forall>n\<ge>3. px A' i j ! n = px A i j ! n))"

text \<open>
  The spec's \<open>isAllWhite\<close>, in its words: there are 3 or 4 channels, and every colour
  channel (0 to 2) of every pixel equals 1.
\<close>

definition allWhite :: "matrix \<Rightarrow> bool" where
  "allWhite B \<longleftrightarrow>
     (chls B = 3 \<or> chls B = 4) \<and>
     list_all (\<lambda>p. list_all (\<lambda>k. get3 B (fst p) (snd p) k = Inr (Fin 1)) [0, 1, 2]) (cellsOf B)"

text \<open>
  The colour that \<open>normal\<close> computes from a channel \<open>ac\<close> and the alpha \<open>aa\<close> of the base
  and a channel \<open>bc\<close> and the alpha \<open>ba\<close> of the filter.
\<close>

definition normalColour :: "jsnum \<Rightarrow> jsnum \<Rightarrow> jsnum \<Rightarrow> jsnum \<Rightarrow> jsnum" where
  "normalColour ac aa bc ba =
     jdiv (jadd (jmul ac aa) (jmul (jmul bc ba) (jsub (Fin 1) aa)))
          (jadd aa (jmul ba (jsub (Fin 1) aa)))"

text \<open>
  \<open>alphaKept A r\<close>: the call returned a matrix whose channel 3 reads everywhere as it
  does in \<open>A\<close>; \<open>alphaKept2\<close> is the same for the calls that return both operands.
\<close>

definition alphaKept :: "matrix \<Rightarrow> error + matrix \<Rightarrow> bool" where
  "alphaKept A r \<longleftrightarrow> (\<exists>A'. r = Inr A' \<and> (\<forall>i j. get3 A' i j 3 = get3 A i j 3))"

definition alphaKept2 :: "matrix \<Rightarrow> error + (matrix \<times> matrix) \<Rightarrow> bool" where
  "alphaKept2 A r \<longleftrightarrow> (\<exists>A' B'. r = Inr (A', B') \<and> (\<forall>i j. get3 A' i j 3 = get3 A i j 3))"

text \<open>A matrix with the arrays and the three sizes of another one.\<close>

definition sameSize :: "matrix \<Rightarrow> matrix \<Rightarrow> bool" where
  "sameSize M s \<longleftrightarrow> shaped s \<and> rows s = rows M \<and> cols s = cols M \<and> chls s = chls M"

text \<open>
  The identity kernel on \<open>ch\<close> channels, as \<open>convolution\<close> uses it on an image of \<open>ch\<close>
  channels: every cell of the 3 x 3 kernel extruded to \<open>ch\<close> equal entries.
\<close>

definition identityOn :: "int \<Rightarrow> matrix" where
  "identityOn ch =
     \<lparr>m = [[Arr (replicate (nat ch) (Fin 0)), Arr (replicate (nat ch) (Fin 0)),
             Arr (replicate (nat ch) (Fin 0))],
           [Arr (replicate (nat ch) (Fin 0)), Arr (replicate (nat ch) (Fin 1)),
             Arr (replicate (nat ch) (Fin 0))],
           [Arr (replicate (nat ch) (Fin 0)), Arr (replicate (nat ch) (Fin 0)),
             Arr (replicate (nat ch) (Fin 0))]],
      rows = 3, cols = 3, chls = ch\<rparr>"

fun isFin :: "jsnum \<Rightarrow> bool" where
  "isFin (Fin v) = True"
| "isFin PInf = False"
| "isFin NInf = False"
| "isFin NaN = False"

text \<open>Every colour value (channels 0, 1, 2) of the matrix is a finite number.\<close>

definition finiteColours :: "matrix \<Rightarrow> bool" where
  "finiteColours A =
     list_all (list_all (\<lambda>c. case c of Num v \<Rightarrow> isFin v | Arr xs \<Rightarrow> list_all isFin (take 3 xs)))
       (m A)"

section \<open>Sequencing and loops\<close>

lemma bnd_Inl: "bnd (Inl e) f = Inl e"
  by (simp add: bnd_def)

lemma bnd_Inr: "bnd (Inr v) f = f v"
  by (simp add: bnd_def)

lemma mapE_const: "mapE (\<lambda>x. Inr y) xs = Inr (replicate (length xs) y)"
  by (induction xs) (simp_all add: bnd_Inr)

section \<open>Creating matrices\<close>

lemma Array_new_of_int:
  "0 \<le> n \<Longrightarrow> n \<le> 2 ^ 32 - 1 \<Longrightarrow> Array_new (of_int n) = Inr (nat n)"
  by (simp add: Array_new_def)

lemma parseInt_of_int: "\<bar>n\<bar> < 10 ^ 21 \<Longrightarrow> parseInt (of_int n) = Some n"
  by (auto simp add: parseInt_def)

lemma parseInt_zero_iff:
  "parseInt x = Some 0 \<longleftrightarrow> x = 0 \<or> (1 / 10 ^ 6 \<le> \<bar>x\<bar> \<and> \<bar>x\<bar> < 1)"
  unfolding parseInt_def
  apply (cases "x = 0")
   apply simp
  apply (cases "0 \<le> x")
   apply (auto simp add: floor_eq_iff ceiling_eq_iff)
  done

lemma generate_int:
  assumes r: "1 \<le> r" "r \<le> 2 ^ 32 - 1" and c: "1 \<le> c" "c \<le> 2 ^ 32 - 1"
    and ch: "ch \<noteq> 0" "\<bar>ch\<bar> < 10 ^ 21" "1 < ch \<Longrightarrow> ch \<le> 2 ^ 32 - 1"
  shows "generate (of_int r) (of_int c) (of_int ch) vo =
     Inr \<lparr>m = replicate (nat r) (replicate (nat c)
              (if 1 < ch then Arr (replicate (nat ch) (case vo of None \<Rightarrow> Fin 0 | Some x \<Rightarrow> x))
               else Num (case vo of None \<Rightarrow> Fin 0 | Some x \<Rightarrow> x))),
          rows = r, cols = c, chls = ch\<rparr>"
proof -
  have pr: "parseInt (of_int r) = Some r" "parseInt (of_int c) = Some c"
    "parseInt (of_int ch) = Some ch"
    using r c ch by (simp_all add: parseInt_of_int)
  have ar: "Array_new (of_int r) = Inr (nat r)" "Array_new (of_int c) = Inr (nat c)"
    using r c by (simp_all add: Array_new_of_int)
  show ?thesis
  proof (cases "1 < ch")
    case True
    then have "Array_new (of_int ch) = Inr (nat ch)"
      using ch by (simp add: Array_new_of_int)
    then show ?thesis
      using True r c ch pr ar by (simp add: generate_def bnd_Inr mapE_const Let_def)
  next
    case False
    then show ?thesis
      using r c ch pr ar by (simp add: generate_def bnd_Inr mapE_const Let_def)
  qed
qed

text \<open>
  Claim C4, as the code has it. \<open>generate\<close> throws its validation error (a TypeError)
  whenever one of the three dimensions is zero or a fraction of absolute value from
  \<open>1e-6\<close> up to 1, the numbers \<open>parseInt\<close> reads as 0. For positive integer dimensions,
  each at most \<open>2^32 - 1\<close>, it builds the \<open>rows\<close> by \<open>cols\<close> by \<open>chls\<close> matrix with every
  element equal to the fill value (0 when none is given). The sign is not checked: a
  negative integer channel count is accepted, stored as it is, and the cells are numbers.
\<close>

theorem generate_dimensions:
  "((rws = 0 \<or> (1 / 10 ^ 6 \<le> \<bar>rws\<bar> \<and> \<bar>rws\<bar> < 1)) \<or>
    (cls = 0 \<or> (1 / 10 ^ 6 \<le> \<bar>cls\<bar> \<and> \<bar>cls\<bar> < 1)) \<or>
    (chs = 0 \<or> (1 / 10 ^ 6 \<le> \<bar>chs\<bar> \<and> \<bar>chs\<bar> < 1))
    \<longrightarrow> generate rws cls chs vo = Inl TypeError) \<and>
   (1 \<le> r \<and> r \<le> 2 ^ 32 - 1 \<and> 1 \<le> c \<and> c \<le> 2 ^ 32 - 1 \<and> 1 \<le> ch \<and> ch \<le> 2 ^ 32 - 1
    \<longrightarrow> generate (of_int r) (of_int c) (of_int ch) vo =
        Inr \<lparr>m = replicate (nat r) (replicate (nat c)
                 (if 1 < ch
                  then Arr (replicate (nat ch) (case vo of None \<Rightarrow> Fin 0 | Some x \<Rightarrow> x))
                  else Num (case vo of None \<Rightarrow> Fin 0 | Some x \<Rightarrow> x))),
             rows = r, cols = c, chls = ch\<rparr>) \<and>
   (1 \<le> r \<and> r \<le> 2 ^ 32 - 1 \<and> 1 \<le> c \<and> c \<le> 2 ^ 32 - 1 \<and> ch < 0 \<and> - (10 ^ 21) < ch
    \<longrightarrow> generate (of_int r) (of_int c) (of_int ch) vo =
        Inr \<lparr>m = replicate (nat r) (replicate (nat c)
                 (Num (case vo of None \<Rightarrow> Fin 0 | Some x \<Rightarrow> x))),
             rows = r, cols = c, chls = ch\<rparr>)"
proof (intro conjI impI)
  assume "(rws = 0 \<or> (1 / 10 ^ 6 \<le> \<bar>rws\<bar> \<and> \<bar>rws\<bar> < 1)) \<or>
    (cls = 0 \<or> (1 / 10 ^ 6 \<le> \<bar>cls\<bar> \<and> \<bar>cls\<bar> < 1)) \<or>
    (chs = 0 \<or> (1 / 10 ^ 6 \<le> \<bar>chs\<bar> \<and> \<bar>chs\<bar> < 1))"
  then have "parseInt rws = Some 0 \<or> parseInt cls = Some 0 \<or> parseInt chs = Some 0"
    by (simp only: parseInt_zero_iff)
  then show "generate rws cls chs vo = Inl TypeError"
    by (simp add: generate_def Let_def)
next
  assume "1 \<le> r \<and> r \<le> 2 ^ 32 - 1 \<and> 1 \<le> c \<and> c \<le> 2 ^ 32 - 1 \<and> 1 \<le> ch \<and> ch \<le> 2 ^ 32 - 1"
  then show "generate (of_int r) (of_int c) (of_int ch) vo =
        Inr \<lparr>m = replicate (nat r) (replicate (nat c)
                 (if 1 < ch
                  then Arr (replicate (nat ch) (case vo of None \<Rightarrow> Fin 0 | Some x \<Rightarrow> x))
                  else Num (case vo of None \<Rightarrow> Fin 0 | Some x \<Rightarrow> x))),
             rows = r, cols = c, chls = ch\<rparr>"
    by (intro generate_int) simp_all
next
  assume "1 \<le> r \<and> r \<le> 2 ^ 32 - 1 \<and> 1 \<le> c \<and> c \<le> 2 ^ 32 - 1 \<and> ch < 0 \<and> - (10 ^ 21) < ch"
  then show "generate (of_int r) (of_int c) (of_int ch) vo =
        Inr \<lparr>m = replicate (nat r) (replicate (nat c)
                 (Num (case vo of None \<Rightarrow> Fin 0 | Some x \<Rightarrow> x))),
             rows = r, cols = c, chls = ch\<rparr>"
    using generate_int [of r c ch vo] by simp
qed

text \<open>
  Witness for C4: \<open>generate(0, 3, 1)\<close> throws the TypeError, \<open>generate(2, 1, 3, 7)\<close>
  builds the 2 by 1 by 3 matrix of sevens, and \<open>generate(1, 2, -1)\<close> is accepted.
\<close>

theorem generate_dimensions_witness:
  "generate 0 3 1 None = Inl TypeError \<and>
   generate 2 1 3 (Some (Fin 7)) =
     Inr \<lparr>m = [[Arr [Fin 7, Fin 7, Fin 7]], [Arr [Fin 7, Fin 7, Fin 7]]],
          rows = 2, cols = 1, chls = 3\<rparr> \<and>
   generate 1 2 (- 1) None =
     Inr \<lparr>m = [[Num (Fin 0), Num (Fin 0)]], rows = 1, cols = 2, chls = - 1\<rparr>"
  using generate_dimensions [of 0 3 1 None 2 1 3]
    generate_dimensions [of 1 1 1 "Some (Fin 7)" 2 1 3]
    generate_dimensions [of 1 1 1 None 1 2 "- 1"]
  by (simp add: numeral_eq_Suc)

text \<open>
  Counterexample to C4 as stated: \<open>generate(1, 1, -1)\<close>, with a channel count that is
  not a positive integer, does not fail; it returns a matrix whose \<open>chls\<close> is \<open>-1\<close>.
\<close>

theorem generate_negative_channels_counterexample:
  "generate 1 1 (- 1) None = Inr \<lparr>m = [[Num (Fin 0)]], rows = 1, cols = 1, chls = - 1\<rparr>"
  by code_simp

section \<open>The matrix product\<close>

text \<open>
  Claim C3 at the operands of the \<open>prewitt\<close> factory,
  \<open>[[1,0,-1],[1,0,-1],[1,0,-1]]\<close> and \<open>[[1,1,1],[0,0,0],[-1,-1,-1]]\<close>: \<open>mmul\<close> returns
  \<open>[[3,0,-3],[0,0,0],[-3,0,3]]\<close>, which is the product taken in the other order; the
  standard product of the first by the second is \<open>[[2,2,2],[2,2,2],[2,2,2]]\<close>.
\<close>

theorem prewitt_is_reversed_product:
  "Kernel_prewitt =
     Inr \<lparr>m = [[Num (Fin 3), Num (Fin 0), Num (Fin (- 3))],
               [Num (Fin 0), Num (Fin 0), Num (Fin 0)],
               [Num (Fin (- 3)), Num (Fin 0), Num (Fin 3)]],
          rows = 3, cols = 3, chls = 1\<rparr>"
  by code_simp

section \<open>Loops over the cells\<close>

lemma bnd_assoc: "bnd (bnd x f) g = bnd x (\<lambda>v. bnd (f v) g)"
  by (cases x) (simp_all add: bnd_def)

lemma foldE_append: "foldE f (xs @ ys) s = bnd (foldE f xs s) (foldE f ys)"
proof (induction xs arbitrary: s)
  case Nil
  show ?case by (simp add: bnd_Inr)
next
  case (Cons x xs)
  show ?case
    by (cases "f x s") (simp_all add: bnd_Inl bnd_Inr Cons.IH)
qed

lemma foldE_map: "foldE f (map g xs) s = foldE (\<lambda>x. f (g x)) xs s"
proof (induction xs arbitrary: s)
  case Nil
  show ?case by simp
next
  case (Cons x xs)
  show ?case
    by (cases "f (g x) s") (simp_all add: bnd_Inl bnd_Inr Cons.IH)
qed

lemma foldE_concat: "foldE f (concat xss) s = foldE (\<lambda>xs. foldE f xs) xss s"
proof (induction xss arbitrary: s)
  case Nil
  show ?case by simp
next
  case (Cons xs xss)
  show ?case
    by (cases "foldE f xs s") (simp_all add: foldE_append bnd_Inl bnd_Inr Cons.IH)
qed

lemma foldE_map_fun: "foldE f (map g xs) = foldE (\<lambda>x. f (g x)) xs"
  by (rule ext) (rule foldE_map)

lemma applyM_flat: "applyM M cb s = foldE (\<lambda>p. cb (fst p) (snd p)) (cellsOf M) s"
  by (simp add: applyM_def cellsOf_def product_concat_map foldE_concat foldE_map foldE_map_fun)

lemma set_cellsOf: "set (cellsOf M) = {(i, j). inRange M i j}"
  by (auto simp add: cellsOf_def inRange_def)

lemma distinct_cellsOf: "distinct (cellsOf M)"
  by (simp add: cellsOf_def distinct_product)

lemma foldE_pointwise:
  assumes step: "\<And>p s. p \<in> P \<Longrightarrow> Inv s \<Longrightarrow> view s p = view s0 p \<Longrightarrow>
      (\<And>q. q \<notin> P \<Longrightarrow> view s q = view s0 q) \<Longrightarrow>
      \<exists>s'. f p s = Inr s' \<and> Inv s' \<and> (\<forall>q. view s' q = (if q = p then G p else view s q))"
    and "distinct qs" and "set qs \<subseteq> P" and "Inv s"
    and "\<And>q. q \<in> set qs \<Longrightarrow> view s q = view s0 q"
    and "\<And>q. q \<notin> P \<Longrightarrow> view s q = view s0 q"
  shows "\<exists>s'. foldE f qs s = Inr s' \<and> Inv s' \<and>
           (\<forall>q. view s' q = (if q \<in> set qs then G q else view s q))"
  using assms(2-)
proof (induction qs arbitrary: s)
  case Nil
  then show ?case by simp
next
  case (Cons p qs)
  have pP: "p \<in> P" using Cons.prems(2) by simp
  have "view s p = view s0 p" using Cons.prems(4) by simp
  with step [OF pP Cons.prems(3)] Cons.prems(5)
  obtain s1 where s1: "f p s = Inr s1" "Inv s1"
    "\<And>q. view s1 q = (if q = p then G p else view s q)"
    by blast
  have notin: "p \<notin> set qs" and dq: "distinct qs" using Cons.prems(1) by simp_all
  have a: "\<And>q. q \<in> set qs \<Longrightarrow> view s1 q = view s0 q"
    using s1(3) notin Cons.prems(4) by auto
  have b: "\<And>q. q \<notin> P \<Longrightarrow> view s1 q = view s0 q"
    using s1(3) pP Cons.prems(5) by auto
  from Cons.IH [OF dq _ s1(2) a b] Cons.prems(2)
  obtain s' where s': "foldE f qs s1 = Inr s'" "Inv s'"
    "\<And>q. view s' q = (if q \<in> set qs then G q else view s1 q)"
    by auto
  have "foldE f (p # qs) s = Inr s'"
    by (simp add: s1(1) bnd_Inr s'(1))
  moreover have "\<forall>q. view s' q = (if q \<in> set (p # qs) then G q else view s q)"
    using s'(3) s1(3) by auto
  ultimately show ?case using s'(2) by blast
qed

lemma putCell_rows: "rows (putCell M i j c) = rows M"
  and putCell_cols: "cols (putCell M i j c) = cols M"
  and putCell_chls: "chls (putCell M i j c) = chls M"
  by (simp_all add: putCell_def)

lemma inRange_putCell: "inRange (putCell M i j c) i' j' = inRange M i' j'"
  by (simp add: inRange_def putCell_rows putCell_cols)

lemma shaped_rows: "shaped M \<Longrightarrow> length (m M) = nat (rows M)"
  by (auto simp add: shaped_def)

lemma shaped_cols: "shaped M \<Longrightarrow> n < length (m M) \<Longrightarrow> length (m M ! n) = nat (cols M)"
  by (auto simp add: shaped_def list_all_length)

lemma shaped_putCell:
  assumes "shaped M"
  shows "shaped (putCell M i j c)"
proof -
  have "int (length ((m M)[nat i := (m M ! nat i)[nat j := c]] ! n)) = cols M"
    if "n < length (m M)" for n
  proof (cases "n = nat i")
    case True
    then show ?thesis using that assms by (simp add: shaped_def list_all_length)
  next
    case False
    then show ?thesis using that assms by (simp add: shaped_def list_all_length)
  qed
  then show ?thesis
    using assms by (simp add: shaped_def putCell_def list_all_length)
qed

lemma cellAt_inRange:
  assumes "shaped M" "inRange M i j"
  shows "cellAt M i j = Some (m M ! nat i ! nat j)"
proof -
  have i: "nat i < length (m M)"
    using assms by (simp add: shaped_rows inRange_def)
  then have "nat j < length (m M ! nat i)"
    using assms by (simp add: shaped_cols inRange_def)
  then show ?thesis
    using i assms(2) by (simp add: cellAt_def rowAt_def inRange_def)
qed

lemma cellAt_outside:
  assumes "shaped M" "\<not> inRange M i j"
  shows "cellAt M i j = None"
proof (cases "0 \<le> i \<and> nat i < length (m M)")
  case True
  then have "length (m M ! nat i) = nat (cols M)" "i < rows M"
    using assms(1) by (simp_all add: shaped_cols shaped_rows)
  then show ?thesis
    using True assms(2) by (auto simp add: cellAt_def rowAt_def inRange_def)
next
  case False
  then show ?thesis by (auto simp add: cellAt_def rowAt_def)
qed

lemma cellAt_SomeD:
  "cellAt M i j = Some c \<Longrightarrow>
   0 \<le> i \<and> nat i < length (m M) \<and> 0 \<le> j \<and> nat j < length (m M ! nat i) \<and> c = m M ! nat i ! nat j"
  by (auto simp add: cellAt_def rowAt_def split: if_splits)

lemma cellAt_putCell:
  assumes "cellAt M i j = Some c0"
  shows "cellAt (putCell M i j c) i' j' = (if i' = i \<and> j' = j then Some c else cellAt M i' j')"
proof -
  note d = cellAt_SomeD [OF assms]
  show ?thesis
  proof (cases "0 \<le> i' \<and> nat i' < length (m M)")
    case False
    then show ?thesis using d by (auto simp add: cellAt_def rowAt_def putCell_def)
  next
    case True
    show ?thesis
    proof (cases "i' = i")
      case False
      then have "nat i' \<noteq> nat i" using True d by auto
      then show ?thesis using True False by (simp add: cellAt_def rowAt_def putCell_def)
    next
      case i: True
      show ?thesis
      proof (cases "0 \<le> j' \<and> nat j' < length (m M ! nat i)")
        case False
        then show ?thesis using d i by (auto simp add: cellAt_def rowAt_def putCell_def)
      next
        case j: True
        show ?thesis
        proof (cases "j' = j")
          case True
          then show ?thesis using d i by (simp add: cellAt_def rowAt_def putCell_def)
        next
          case False
          then have "nat j' \<noteq> nat j" using j d by auto
          then show ?thesis using d i j False by (simp add: cellAt_def rowAt_def putCell_def)
        qed
      qed
    qed
  qed
qed

lemma putCell_putCell: "putCell (putCell M i j c) i j c' = putCell M i j c'"
proof (cases "nat i < length (m M)")
  case True
  then show ?thesis by (simp add: putCell_def)
next
  case False
  then have "(m M)[nat i := r] = m M" for r by (simp add: list_update_beyond not_less)
  then show ?thesis by (simp add: putCell_def)
qed

lemma get3_cell:
  "inRange M i j \<Longrightarrow> 0 \<le> k \<Longrightarrow> k < chls M \<Longrightarrow> cellAt M i j = Some (Arr xs) \<Longrightarrow>
   nat k < length xs \<Longrightarrow> get3 M i j k = Inr (xs ! nat k)"
  by (simp add: get3_def inRange_def)

lemma set3_cell:
  "inRange M i j \<Longrightarrow> 0 \<le> k \<Longrightarrow> k < chls M \<Longrightarrow> cellAt M i j = Some (Arr xs) \<Longrightarrow>
   nat k < length xs \<Longrightarrow> set3 M i j v k = Inr (putCell M i j (Arr (xs[nat k := v])))"
  by (simp add: set3_def inRange_def)

lemma get2_cell: "inRange M i j \<Longrightarrow> cellAt M i j = Some c \<Longrightarrow> get2 M i j = Inr c"
  by (simp add: get2_def inRange_def)

lemma set2_cell:
  "inRange M i j \<Longrightarrow> cellAt M i j = Some c0 \<Longrightarrow> set2 M i j c = Inr (putCell M i j c)"
  by (simp add: set2_def inRange_def)

lemma applyM_cells:
  assumes sh: "shaped s0"
    and tgt: "\<And>i j. inRange M i j \<Longrightarrow> inRange s0 (i + oi) (j + oj)"
    and step: "\<And>i j s. inRange M i j \<Longrightarrow> shaped s \<Longrightarrow> rows s = rows s0 \<Longrightarrow>
      cols s = cols s0 \<Longrightarrow> chls s = chls s0 \<Longrightarrow>
      cellAt s (i + oi) (j + oj) = cellAt s0 (i + oi) (j + oj) \<Longrightarrow>
      cb i j s = Inr (putCell s (i + oi) (j + oj) (F i j))"
  shows "\<exists>s'. applyM M cb s0 = Inr s' \<and> shaped s' \<and> rows s' = rows s0 \<and>
           cols s' = cols s0 \<and> chls s' = chls s0 \<and>
           (\<forall>i j. cellAt s' i j =
              (if inRange M (i - oi) (j - oj) then Some (F (i - oi) (j - oj)) else cellAt s0 i j))"
proof -
  define Inv where "Inv s \<longleftrightarrow> shaped s \<and> rows s = rows s0 \<and> cols s = cols s0 \<and> chls s = chls s0"
    for s
  define view where "view s q = cellAt s (fst q + oi) (snd q + oj)" for s and q :: "int \<times> int"
  define G where "G q = Some (F (fst q) (snd q))" for q :: "int \<times> int"
  have st: "\<exists>s'. cb (fst p) (snd p) s = Inr s' \<and> Inv s' \<and>
      (\<forall>q. view s' q = (if q = p then G p else view s q))"
    if p: "p \<in> set (cellsOf M)" and inv: "Inv s" and same: "view s p = view s0 p" for p s
  proof -
    have r: "inRange M (fst p) (snd p)" using p by (auto simp add: set_cellsOf)
    have c0: "cellAt s0 (fst p + oi) (snd p + oj) = Some (m s0 ! nat (fst p + oi) ! nat (snd p + oj))"
      using cellAt_inRange [OF sh tgt [OF r]] .
    have c: "cellAt s (fst p + oi) (snd p + oj) = Some (m s0 ! nat (fst p + oi) ! nat (snd p + oj))"
      using same c0 by (simp add: view_def)
    have e: "cb (fst p) (snd p) s = Inr (putCell s (fst p + oi) (snd p + oj) (F (fst p) (snd p)))"
      using step [OF r] inv same by (simp add: Inv_def view_def)
    have "\<forall>q. view (putCell s (fst p + oi) (snd p + oj) (F (fst p) (snd p))) q =
        (if q = p then G p else view s q)"
      by (auto simp add: view_def G_def cellAt_putCell [OF c] prod_eq_iff)
    moreover have "Inv (putCell s (fst p + oi) (snd p + oj) (F (fst p) (snd p)))"
      using inv by (simp add: Inv_def shaped_putCell putCell_rows putCell_cols putCell_chls)
    ultimately show ?thesis using e by blast
  qed
  have "\<exists>s'. foldE (\<lambda>p. cb (fst p) (snd p)) (cellsOf M) s0 = Inr s' \<and> Inv s' \<and>
      (\<forall>q. view s' q = (if q \<in> set (cellsOf M) then G q else view s0 q))"
    by (rule foldE_pointwise [where P = "set (cellsOf M)" and ?s0.0 = s0])
      (use st in \<open>simp_all add: distinct_cellsOf Inv_def sh\<close>)
  then obtain s' where s': "applyM M cb s0 = Inr s'" "Inv s'"
    "\<And>q. view s' q = (if q \<in> set (cellsOf M) then G q else view s0 q)"
    by (auto simp add: applyM_flat)
  have "cellAt s' i j =
      (if inRange M (i - oi) (j - oj) then Some (F (i - oi) (j - oj)) else cellAt s0 i j)" for i j
    using s'(3) [of "(i - oi, j - oj)"] by (simp add: view_def G_def set_cellsOf)
  then show ?thesis using s'(1,2) by (auto simp add: Inv_def)
qed

lemma applyM_cells0:
  assumes sh: "shaped s0"
    and tgt: "\<And>i j. inRange M i j \<Longrightarrow> inRange s0 i j"
    and step: "\<And>i j s. inRange M i j \<Longrightarrow> shaped s \<Longrightarrow> rows s = rows s0 \<Longrightarrow>
      cols s = cols s0 \<Longrightarrow> chls s = chls s0 \<Longrightarrow> cellAt s i j = cellAt s0 i j \<Longrightarrow>
      cb i j s = Inr (putCell s i j (F i j))"
  shows "\<exists>s'. applyM M cb s0 = Inr s' \<and> shaped s' \<and> rows s' = rows s0 \<and>
           cols s' = cols s0 \<and> chls s' = chls s0 \<and>
           (\<forall>i j. cellAt s' i j = (if inRange M i j then Some (F i j) else cellAt s0 i j))"
  using applyM_cells [of s0 M 0 0 cb F] assms by (simp cong: if_cong)

section \<open>Extruding channels\<close>

lemma wfMatrix_shaped: "wfMatrix M \<Longrightarrow> shaped M"
  by (simp add: wfMatrix_def shaped_def list_all_length)

lemma wfMatrix_cell:
  assumes "wfMatrix M" "inRange M i j"
  shows "wfCell (chls M) (m M ! nat i ! nat j)"
proof -
  note sh = wfMatrix_shaped [OF assms(1)]
  have i: "nat i < length (m M)"
    using assms(2) by (simp add: shaped_rows [OF sh] inRange_def)
  then have "nat j < length (m M ! nat i)"
    using assms(2) by (simp add: shaped_cols [OF sh] inRange_def)
  with i show ?thesis
    using assms(1) by (simp add: wfMatrix_def list_all_length)
qed

lemma wfMatrixI:
  assumes "shaped M" "1 \<le> chls M" "chls M < 2 ^ 32" "rows M < 2 ^ 32" "0 \<le> cols M"
    "cols M < 2 ^ 32"
    and cells: "\<And>i j. inRange M i j \<Longrightarrow> \<exists>c. cellAt M i j = Some c \<and> wfCell (chls M) c"
  shows "wfMatrix M"
proof -
  have "wfCell (chls M) (m M ! a ! b)" if "a < length (m M)" "b < length (m M ! a)" for a b
  proof -
    have "inRange M (int a) (int b)"
      using that assms(1) by (auto simp add: inRange_def shaped_def list_all_length)
    from cells [OF this] cellAt_inRange [OF assms(1) this] show ?thesis by simp
  qed
  then show ?thesis
    using assms(1-6) by (auto simp add: wfMatrix_def shaped_def list_all_length)
qed

lemma cellAt_chls_update: "cellAt (M\<lparr>chls := n\<rparr>) i j = cellAt M i j"
  by (simp add: cellAt_def rowAt_def)

lemma shaped_chls_update: "shaped (M\<lparr>chls := n\<rparr>) = shaped M"
  by (simp add: shaped_def)

lemma inRange_chls_update: "inRange (M\<lparr>chls := n\<rparr>) i j = inRange M i j"
  by (simp add: inRange_def)

lemma foldE_push:
  "int (length xs) + int (length ks) \<le> 2 ^ 32 - 1 \<Longrightarrow>
   foldE (\<lambda>n' ys. push ys v) ks xs = Inr (xs @ replicate (length ks) v)"
proof (induction ks arbitrary: xs)
  case Nil
  show ?case by simp
next
  case (Cons k ks)
  have "push xs v = Inr (xs @ [v])" using Cons.prems by (simp add: push_def)
  moreover have "foldE (\<lambda>n' ys. push ys v) ks (xs @ [v]) = Inr ((xs @ [v]) @ replicate (length ks) v)"
    using Cons.prems by (intro Cons.IH) simp
  ultimately show ?case by (simp add: bnd_Inr replicate_app_Cons_same)
qed

lemma extrude_result:
  assumes wf: "wfMatrix M" and n: "1 < n" "chls M \<le> n" "n \<le> 2 ^ 32 - 1"
  shows "\<exists>M'. extrude M n = Inr M' \<and> wfMatrix M' \<and> rows M' = rows M \<and> cols M' = cols M \<and>
           chls M' = n \<and>
           (\<forall>i j k. inRange M i j \<longrightarrow>
              (0 \<le> k \<and> k < chls M \<longrightarrow> valueAt M' i j k = valueAt M i j k) \<and>
              (chls M \<le> k \<and> k < n \<longrightarrow> valueAt M' i j k = valueAt M i j (chls M - 1)))"
proof -
  note sh = wfMatrix_shaped [OF wf]
  define F where "F i j =
     (case m M ! nat i ! nat j of
        Num v \<Rightarrow> Arr (replicate (nat n) v)
      | Arr xs \<Rightarrow> Arr (xs @ replicate (nat (n - chls M)) (xs ! nat (chls M - 1))))" for i j
  define cb where "cb = (if chls M = 1
         then (\<lambda>i j s.
                bnd (get2 s i j) (\<lambda>c.
                  case c of
                    Num v \<Rightarrow>
                      bnd (Array_new (of_int n)) (\<lambda>len. set2 s i j (Arr (replicate len v)))
                  | Arr xs \<Rightarrow> Inl OutOfModel))
         else (\<lambda>i j s.
                case cellAt s i j of
                  Some (Arr xs) \<Rightarrow>
                    if 0 \<le> chls M - 1 \<and> nat (chls M - 1) < length xs
                    then bnd (foldE (\<lambda>n' ys. push ys (xs ! nat (chls M - 1))) [chls M..n - 1] xs)
                           (\<lambda>ys. Inr (putCell s i j (Arr ys)))
                    else Inl OutOfModel
                | _ \<Rightarrow> Inl OutOfModel))"
  have step: "cb i j s = Inr (putCell s i j (F i j))"
    if r: "inRange M i j" and s: "shaped s" "rows s = rows M" "cols s = cols M" "chls s = chls M"
      "cellAt s i j = cellAt M i j" for i j s
  proof -
    have c: "cellAt s i j = Some (m M ! nat i ! nat j)"
      using s(5) cellAt_inRange [OF sh r] by simp
    have rs: "inRange s i j" using r s by (simp add: inRange_def)
    note w = wfMatrix_cell [OF wf r]
    show ?thesis
    proof (cases "m M ! nat i ! nat j")
      case (Num v)
      then have "chls M = 1" using w by (simp add: wfCell_def)
      then show ?thesis
        using Num c rs n
        by (simp add: cb_def F_def get2_cell [OF rs c] bnd_Inr Array_new_of_int set2_cell [OF rs c])
    next
      case (Arr xs)
      then have l: "1 < chls M" "int (length xs) = chls M" using w by (simp_all add: wfCell_def)
      have "int (length xs) + int (length [chls M..n - 1]) \<le> 2 ^ 32 - 1"
        using l n by simp
      from foldE_push [OF this] have
        "foldE (\<lambda>n' ys. push ys (xs ! nat (chls M - 1))) [chls M..n - 1] xs =
           Inr (xs @ replicate (nat (n - chls M)) (xs ! nat (chls M - 1)))"
        using n by simp
      moreover have "nat (chls M - 1) < length xs" using l by linarith
      ultimately show ?thesis
        using Arr c l by (simp add: cb_def F_def bnd_Inr)
    qed
  qed
  have "\<exists>s'. applyM M cb M = Inr s' \<and> shaped s' \<and> rows s' = rows M \<and>
           cols s' = cols M \<and> chls s' = chls M \<and>
           (\<forall>i j. cellAt s' i j = (if inRange M i j then Some (F i j) else cellAt M i j))"
    by (rule applyM_cells0 [OF sh _ step])
  then obtain s' where s': "applyM M cb M = Inr s'" "shaped s'" "rows s' = rows M" "cols s' = cols M"
    "chls s' = chls M" "\<And>i j. cellAt s' i j = (if inRange M i j then Some (F i j) else cellAt M i j)"
    by blast
  have e: "extrude M n = Inr (s'\<lparr>chls := n\<rparr>)"
  proof (cases "chls M = 1")
    case True
    then show ?thesis using n s'(1) by (simp add: extrude_def cb_def bnd_Inr)
  next
    case False
    then show ?thesis using n s'(1) by (simp add: extrude_def cb_def bnd_Inr)
  qed
  have cellF: "wfCell n (F i j)" if "inRange M i j" for i j
    using wfMatrix_cell [OF wf that] n
    by (auto simp add: F_def wfCell_def split: cell.splits)
  have "wfMatrix (s'\<lparr>chls := n\<rparr>)"
  proof (rule wfMatrixI)
    show "shaped (s'\<lparr>chls := n\<rparr>)" using s'(2) by (simp add: shaped_chls_update)
    show "\<exists>c. cellAt (s'\<lparr>chls := n\<rparr>) i j = Some c \<and> wfCell (chls (s'\<lparr>chls := n\<rparr>)) c"
      if "inRange (s'\<lparr>chls := n\<rparr>) i j" for i j
    proof -
      have "inRange M i j" using that s'(3,4) by (simp add: inRange_def)
      then show ?thesis using cellF by (simp add: cellAt_chls_update s'(6))
    qed
  qed (use wf n s' in \<open>simp_all add: wfMatrix_def\<close>)
  moreover have "valueAt (s'\<lparr>chls := n\<rparr>) i j k = valueAt M i j k"
    if "inRange M i j" "0 \<le> k" "k < chls M" for i j k
    using that n wfMatrix_cell [OF wf that(1)] cellAt_inRange [OF sh that(1)]
    by (auto simp add: valueAt_def cellAt_chls_update s'(6) F_def wfCell_def nth_append
        split: cell.splits)
  moreover have "valueAt (s'\<lparr>chls := n\<rparr>) i j k = valueAt M i j (chls M - 1)"
    if "inRange M i j" "chls M \<le> k" "k < n" for i j k
    using that wfMatrix_cell [OF wf that(1)] cellAt_inRange [OF sh that(1)]
    by (auto simp add: valueAt_def cellAt_chls_update s'(6) F_def wfCell_def nth_append
        split: cell.splits)
  ultimately show ?thesis
    using e s'(3,4) by auto
qed

lemma matrix_eqI:
  assumes "shaped A" "shaped B" "rows A = rows B" "cols A = cols B" "chls A = chls B"
    and cells: "\<And>i j. inRange A i j \<Longrightarrow> cellAt A i j = cellAt B i j"
  shows "A = (B :: matrix)"
proof -
  have len: "length (m A) = length (m B)"
    using assms(1-3) by (simp add: shaped_rows)
  have "m A ! a = m B ! a" if a: "a < length (m A)" for a
  proof (rule nth_equalityI)
    show l2: "length (m A ! a) = length (m B ! a)"
      using a len assms(1,2,4) by (simp add: shaped_cols)
    show "m A ! a ! b = m B ! a ! b" if b: "b < length (m A ! a)" for b
    proof -
      have r: "inRange A (int a) (int b)"
        using a b assms(1) by (auto simp add: inRange_def shaped_def list_all_length)
      then have "inRange B (int a) (int b)" using assms(3,4) by (simp add: inRange_def)
      from cellAt_inRange [OF assms(1) r] cellAt_inRange [OF assms(2) this] cells [OF r]
      show ?thesis by simp
    qed
  qed
  then have "m A = m B" using len by (simp add: nth_equalityI)
  then show ?thesis using assms(3-5) by simp
qed

lemma extrude_same:
  assumes wf: "wfMatrix M" and n: "1 < chls M"
  shows "extrude M (chls M) = Inr M"
proof -
  note sh = wfMatrix_shaped [OF wf]
  have "chls M \<le> 2 ^ 32 - 1" using wf by (simp add: wfMatrix_def)
  from extrude_result [OF wf n _ this]
  obtain M' where M': "extrude M (chls M) = Inr M'" "wfMatrix M'" "rows M' = rows M"
    "cols M' = cols M" "chls M' = chls M"
    "\<And>i j k. inRange M i j \<Longrightarrow> 0 \<le> k \<Longrightarrow> k < chls M \<Longrightarrow> valueAt M' i j k = valueAt M i j k"
    by auto
  have "cellAt M' i j = cellAt M i j" if r: "inRange M' i j" for i j
  proof -
    have r': "inRange M i j" using r M'(3,4) by (simp add: inRange_def)
    note c = wfMatrix_cell [OF wf r'] and c' = wfMatrix_cell [OF M'(2) r]
    obtain xs where xs: "m M ! nat i ! nat j = Arr xs" "int (length xs) = chls M"
      using c n by (auto simp add: wfCell_def split: cell.splits)
    obtain ys where ys: "m M' ! nat i ! nat j = Arr ys" "int (length ys) = chls M"
      using c' n M'(5) by (auto simp add: wfCell_def split: cell.splits)
    have "ys ! k = xs ! k" if "k < length xs" for k
      using M'(6) [OF r', of "int k"] that xs ys
        cellAt_inRange [OF sh r'] cellAt_inRange [OF wfMatrix_shaped [OF M'(2)] r]
      by (simp add: valueAt_def)
    then have "ys = xs" using xs ys by (intro nth_equalityI) auto
    then show ?thesis
      using xs ys cellAt_inRange [OF sh r'] cellAt_inRange [OF wfMatrix_shaped [OF M'(2)] r]
      by simp
  qed
  then have "M' = M"
    using M' sh by (intro matrix_eqI) (simp_all add: wfMatrix_shaped)
  then show ?thesis using M'(1) by simp
qed

text \<open>
  Claim C5, as the code has it. On a matrix that satisfies the shape invariant,
  \<open>extrude(n)\<close> throws a RangeError for \<open>n \<le> 1\<close> and for \<open>n\<close> below the current channel
  count. For \<open>n\<close> equal to the current count (at least 2) it succeeds and returns the
  matrix unchanged. For every \<open>n > 1\<close> from the current count up to \<open>2^32 - 1\<close> it
  succeeds: rows and columns stay, the channel count becomes \<open>n\<close>, the channels below
  the old count keep their values and every new channel holds the value of the last old
  channel.
\<close>

theorem extrude_channels:
  assumes "wfMatrix M"
  shows "(n \<le> 1 \<or> n < chls M \<longrightarrow> extrude M n = Inl RangeError) \<and>
         (1 < n \<and> n = chls M \<longrightarrow> extrude M n = Inr M) \<and>
         (1 < n \<and> chls M \<le> n \<and> n \<le> 2 ^ 32 - 1 \<longrightarrow>
           (\<exists>M'. extrude M n = Inr M' \<and> wfMatrix M' \<and> rows M' = rows M \<and> cols M' = cols M \<and>
              chls M' = n \<and>
              (\<forall>i j k. inRange M i j \<longrightarrow>
                 (0 \<le> k \<and> k < chls M \<longrightarrow> valueAt M' i j k = valueAt M i j k) \<and>
                 (chls M \<le> k \<and> k < n \<longrightarrow> valueAt M' i j k = valueAt M i j (chls M - 1)))))"
proof (intro conjI impI)
  assume "n \<le> 1 \<or> n < chls M"
  then show "extrude M n = Inl RangeError" by (auto simp add: extrude_def)
next
  assume "1 < n \<and> n = chls M"
  then show "extrude M n = Inr M" using extrude_same [OF assms] by simp
next
  assume "1 < n \<and> chls M \<le> n \<and> n \<le> 2 ^ 32 - 1"
  then show "\<exists>M'. extrude M n = Inr M' \<and> wfMatrix M' \<and> rows M' = rows M \<and> cols M' = cols M \<and>
              chls M' = n \<and>
              (\<forall>i j k. inRange M i j \<longrightarrow>
                 (0 \<le> k \<and> k < chls M \<longrightarrow> valueAt M' i j k = valueAt M i j k) \<and>
                 (chls M \<le> k \<and> k < n \<longrightarrow> valueAt M' i j k = valueAt M i j (chls M - 1)))"
    using extrude_result [OF assms, of n] by blast
qed

text \<open>
  Witness for C5 on the 1 by 1 matrix with the pixel \<open>[1, 2, 3]\<close>: \<open>extrude(2)\<close> throws,
  \<open>extrude(3)\<close> returns the matrix as it is, \<open>extrude(5)\<close> gives 5 channels with the
  last one equal to 3.
\<close>

theorem extrude_channels_witness:
  "wfMatrix \<lparr>m = [[Arr [Fin 1, Fin 2, Fin 3]]], rows = 1, cols = 1, chls = 3\<rparr> \<and>
   extrude \<lparr>m = [[Arr [Fin 1, Fin 2, Fin 3]]], rows = 1, cols = 1, chls = 3\<rparr> 2 = Inl RangeError \<and>
   extrude \<lparr>m = [[Arr [Fin 1, Fin 2, Fin 3]]], rows = 1, cols = 1, chls = 3\<rparr> 3 =
     Inr \<lparr>m = [[Arr [Fin 1, Fin 2, Fin 3]]], rows = 1, cols = 1, chls = 3\<rparr> \<and>
   (\<exists>M'. extrude \<lparr>m = [[Arr [Fin 1, Fin 2, Fin 3]]], rows = 1, cols = 1, chls = 3\<rparr> 5 = Inr M' \<and>
      chls M' = 5 \<and> valueAt M' 0 0 4 = Some (Fin 3))"
proof -
  have w: "wfMatrix \<lparr>m = [[Arr [Fin 1, Fin 2, Fin 3]]], rows = 1, cols = 1, chls = 3\<rparr>"
    by (simp add: wfMatrix_def wfCell_def)
  have v: "valueAt \<lparr>m = [[Arr [Fin 1, Fin 2, Fin 3]]], rows = 1, cols = 1, chls = 3\<rparr> 0 0 2 = Some (Fin 3)"
    by (simp add: valueAt_def cellAt_def rowAt_def)
  have r: "inRange \<lparr>m = [[Arr [Fin 1, Fin 2, Fin 3]]], rows = 1, cols = 1, chls = 3\<rparr> 0 0"
    by (simp add: inRange_def)
  have a: "extrude \<lparr>m = [[Arr [Fin 1, Fin 2, Fin 3]]], rows = 1, cols = 1, chls = 3\<rparr> 2 = Inl RangeError"
    using extrude_channels [OF w, of 2] by simp
  have b: "extrude \<lparr>m = [[Arr [Fin 1, Fin 2, Fin 3]]], rows = 1, cols = 1, chls = 3\<rparr> 3 =
      Inr \<lparr>m = [[Arr [Fin 1, Fin 2, Fin 3]]], rows = 1, cols = 1, chls = 3\<rparr>"
    using extrude_channels [OF w, of 3] by simp
  from extrude_channels [OF w, of 5]
  obtain M' where M': "extrude \<lparr>m = [[Arr [Fin 1, Fin 2, Fin 3]]], rows = 1, cols = 1, chls = 3\<rparr> 5 = Inr M'"
    "chls M' = 5"
    "\<And>i j k. inRange \<lparr>m = [[Arr [Fin 1, Fin 2, Fin 3]]], rows = 1, cols = 1, chls = 3\<rparr> i j \<Longrightarrow>
       3 \<le> k \<Longrightarrow> k < 5 \<Longrightarrow>
       valueAt M' i j k =
       valueAt \<lparr>m = [[Arr [Fin 1, Fin 2, Fin 3]]], rows = 1, cols = 1, chls = 3\<rparr> i j 2"
    by auto
  have "valueAt M' 0 0 4 = Some (Fin 3)"
    using M'(3) [OF r, of 4] v by simp
  then show ?thesis using w a b M'(1,2) by blast
qed

text \<open>
  Counterexample to C5 as stated: with \<open>n\<close> equal to the current channel count 3,
  \<open>extrude(3)\<close> does not fail; the check is \<open>chls < this.chls\<close>.
\<close>

theorem extrude_same_count_counterexample:
  "extrude \<lparr>m = [[Arr [Fin 1, Fin 2, Fin 3]]], rows = 1, cols = 1, chls = 3\<rparr> 3 =
     Inr \<lparr>m = [[Arr [Fin 1, Fin 2, Fin 3]]], rows = 1, cols = 1, chls = 3\<rparr>"
  by code_simp

section \<open>The Gaussian kernels\<close>

lemma applyM_cells_eq:
  assumes sh: "shaped s0"
    and step: "\<And>i j s. inRange s0 i j \<Longrightarrow> shaped s \<Longrightarrow> rows s = rows s0 \<Longrightarrow>
      cols s = cols s0 \<Longrightarrow> chls s = chls s0 \<Longrightarrow> cellAt s i j = cellAt s0 i j \<Longrightarrow>
      cb i j s = Inr (putCell s i j (F i j))"
  shows "applyM s0 cb s0 =
     Inr (s0\<lparr>m := map (\<lambda>i. map (\<lambda>j. F (int i) (int j)) [0..<nat (cols s0)]) [0..<nat (rows s0)]\<rparr>)"
proof -
  let ?R = "s0\<lparr>m := map (\<lambda>i. map (\<lambda>j. F (int i) (int j)) [0..<nat (cols s0)]) [0..<nat (rows s0)]\<rparr>"
  have "\<exists>s'. applyM s0 cb s0 = Inr s' \<and> shaped s' \<and> rows s' = rows s0 \<and>
           cols s' = cols s0 \<and> chls s' = chls s0 \<and>
           (\<forall>i j. cellAt s' i j = (if inRange s0 i j then Some (F i j) else cellAt s0 i j))"
    by (rule applyM_cells0 [OF sh _ step])
  then obtain s' where s': "applyM s0 cb s0 = Inr s'" "shaped s'" "rows s' = rows s0"
    "cols s' = cols s0" "chls s' = chls s0"
    "\<And>i j. cellAt s' i j = (if inRange s0 i j then Some (F i j) else cellAt s0 i j)"
    by blast
  have r0: "0 \<le> rows s0" using sh by (auto simp add: shaped_def)
  have shR: "shaped ?R"
    using sh r0 by (cases "m s0") (auto simp add: shaped_def list_all_length)
  have "cellAt s' i j = cellAt ?R i j" if r: "inRange s' i j" for i j
  proof -
    have r': "inRange s0 i j" using r s'(3,4) by (simp add: inRange_def)
    then have "inRange ?R i j" by (simp add: inRange_def)
    from cellAt_inRange [OF shR this] r' show ?thesis
      by (simp add: s'(6) inRange_def)
  qed
  then have "s' = ?R"
    using s'(2-5) shR by (intro matrix_eqI) simp_all
  then show ?thesis using s'(1) by simp
qed

lemma overflow_Fin:
  "- overflowBound < a \<Longrightarrow> a < overflowBound \<Longrightarrow> overflow (Fin a) = Fin a"
  by (simp add: overflow_def)

lemma overflowBound_pos: "0 < overflowBound"
  by (simp add: overflowBound_def)

lemma pow2_below_bound:
  assumes "j \<le> 1023"
  shows "(2 :: real) ^ j < overflowBound"
proof -
  have "(2 :: real) ^ j \<le> 2 ^ 1023"
    using assms by (intro power_increasing) simp_all
  also have "(2 :: real) ^ 1023 < overflowBound"
    by (simp add: overflowBound_def)
  finally show ?thesis .
qed

lemma binomial_Suc_le_pow2: "Suc n choose k \<le> 2 ^ n"
proof (induction n arbitrary: k)
  case 0
  show ?case using binomial_le_pow2 [of 0] by (cases k) simp_all
next
  case (Suc n)
  show ?case
  proof (cases k)
    case 0
    then show ?thesis by simp
  next
    case (Suc k')
    have "Suc (Suc n) choose Suc k' = (Suc n choose k') + (Suc n choose Suc k')"
      by (rule binomial_Suc_Suc)
    also have "\<dots> \<le> 2 ^ n + 2 ^ n"
      by (intro add_mono Suc.IH)
    finally show ?thesis using Suc by simp
  qed
qed

lemma jadd_ovf_binomial:
  assumes "j \<le> 1023"
  shows "jadd_ovf (Fin (real (j choose i))) (Fin (real (j choose Suc i))) =
     Fin (real (Suc j choose Suc i))"
proof -
  have "real (Suc j choose Suc i) \<le> 2 ^ j"
    using binomial_Suc_le_pow2 [of j "Suc i"] by (metis of_nat_le_iff of_nat_numeral of_nat_power)
  then have "real (Suc j choose Suc i) < overflowBound"
    using pow2_below_bound [OF assms] by simp
  moreover have "- overflowBound < real (Suc j choose Suc i)"
    using overflowBound_pos by (simp add: less_le_trans [of _ 0])
  ultimately have "overflow (Fin (real (Suc j choose Suc i))) = Fin (real (Suc j choose Suc i))"
    by (intro overflow_Fin)
  then show ?thesis by (simp add: jadd_ovf_def)
qed

lemma pascal_step_row:
  assumes "j \<le> 1023"
  shows "pascal_step (map Fin (pascalRow j)) = map Fin (pascalRow (Suc j))"
proof (rule nth_equalityI)
  show "length (pascal_step (map Fin (pascalRow j))) = length (map Fin (pascalRow (Suc j)))"
    by (simp add: pascal_step_def pascalRow_def)
  fix i
  assume "i < length (pascal_step (map Fin (pascalRow j)))"
  then have i: "i < j + 2" by (simp add: pascal_step_def pascalRow_def)
  show "pascal_step (map Fin (pascalRow j)) ! i = map Fin (pascalRow (Suc j)) ! i"
  proof (cases i)
    case 0
    then show ?thesis by (simp add: pascal_step_def pascalRow_def del: upt_Suc)
  next
    case (Suc i')
    show ?thesis
    proof (cases "i' < j")
      case True
      then have "pascal_step (map Fin (pascalRow j)) ! i =
          jadd_ovf (map Fin (pascalRow j) ! i') (map Fin (pascalRow j) ! (i' + 1))"
        using Suc by (simp add: pascal_step_def pascalRow_def nth_append del: upt_Suc)
      also have "\<dots> = jadd_ovf (Fin (real (j choose i'))) (Fin (real (j choose Suc i')))"
        using True by (simp add: pascalRow_def del: upt_Suc)
      also have "\<dots> = Fin (real (Suc j choose Suc i'))"
        by (rule jadd_ovf_binomial [OF assms])
      also have "\<dots> = map Fin (pascalRow (Suc j)) ! i"
        using True Suc by (simp add: pascalRow_def del: upt_Suc binomial_Suc_Suc)
      finally show ?thesis .
    next
      case False
      then have "i' = j" using i Suc by simp
      then show ?thesis
        using Suc by (simp add: pascal_step_def pascalRow_def nth_append del: upt_Suc)
    qed
  qed
qed

lemma foldl_const_step: "foldl (\<lambda>a i. f a) a xs = (f ^^ length xs) a"
  by (induction xs arbitrary: a) (simp_all add: funpow_swap1)

lemma pascal_step_funpow:
  "j + k \<le> 1024 \<Longrightarrow> (pascal_step ^^ k) (map Fin (pascalRow j)) = map Fin (pascalRow (j + k))"
proof (induction k)
  case 0
  show ?case by simp
next
  case (Suc k)
  then have "(pascal_step ^^ k) (map Fin (pascalRow j)) = map Fin (pascalRow (j + k))"
    and "j + k \<le> 1023" by simp_all
  then show ?case by (simp add: pascal_step_row)
qed

lemma pascal_binomial:
  assumes "1 \<le> n" "n \<le> 1025"
  shows "pascal n = map Fin (pascalRow (nat n - 1))"
proof -
  consider "n = 1" | "n = 2" | "2 < n" using assms by linarith
  then show ?thesis
  proof cases
    case 1
    then show ?thesis by (simp add: pascal_def pascalRow_def)
  next
    case 2
    then show ?thesis by (simp add: pascal_def pascalRow_def)
  next
    case 3
    have one: "[Fin 1, Fin 1] = map Fin (pascalRow 1)" by (simp add: pascalRow_def)
    have b: "1 + nat (n - 2) \<le> 1024" using assms(2) by simp
    have "pascal n = (pascal_step ^^ nat (n - 2)) [Fin 1, Fin 1]"
      using 3 by (simp add: pascal_def foldl_const_step)
    also have "\<dots> = map Fin (pascalRow (1 + nat (n - 2)))"
      unfolding one by (rule pascal_step_funpow [OF b])
    also have "1 + nat (n - 2) = nat n - 1" using 3 by linarith
    finally show ?thesis .
  qed
qed

lemma pascalRow_nonneg: "x \<in> set (pascalRow j) \<Longrightarrow> 0 \<le> x"
  by (auto simp add: pascalRow_def)

lemma pascalRow_le_pow2: "x \<in> set (pascalRow j) \<Longrightarrow> x \<le> 2 ^ j"
proof -
  assume "x \<in> set (pascalRow j)"
  then have "x \<in> (\<lambda>k. real (j choose k)) ` set [0..<Suc j]"
    unfolding pascalRow_def by (simp only: set_map)
  then obtain k where "x = real (j choose k)" by blast
  then show ?thesis
    using binomial_le_pow2 [of j k] by (metis of_nat_le_iff of_nat_numeral of_nat_power)
qed

lemma sum_list_pascalRow: "sum_list (pascalRow j) = 2 ^ j"
proof -
  have eq: "{0..<Suc j} = {..j}" by auto
  have "sum_list (pascalRow j) = (\<Sum>k \<in> {0..<Suc j}. real (j choose k))"
    by (simp add: pascalRow_def interv_sum_list_conv_sum_set_nat del: upt_Suc)
  also have "\<dots> = real (\<Sum>k\<le>j. j choose k)" by (simp only: eq of_nat_sum)
  also have "\<dots> = 2 ^ j" by (simp only: choose_row_sum) simp
  finally show ?thesis .
qed

lemma length_pascalRow: "length (pascalRow j) = Suc j"
  by (simp add: pascalRow_def)

lemma upto_snoc_nat: "[0..int (Suc k) - 1] = [0..int k - 1] @ [int k]"
  using upto_rec2 [of 0 "int k"] by simp

lemma map_nth_fun: "map (\<lambda>j. f (xs ! j)) [0..<length xs] = map f xs"
  by (rule nth_equalityI) simp_all

lemma load_rowKernel:
  "xs \<noteq> [] \<Longrightarrow> load [map Num (map Fin xs)] = Inr (rowKernel xs)"
  by (cases xs) (simp_all add: load_def rowKernel_def)

lemma load_colKernel:
  "xs \<noteq> [] \<Longrightarrow> load (map (\<lambda>n. [Num n]) (map Fin xs)) = Inr (colKernel xs)"
  by (cases xs) (simp_all add: load_def colKernel_def)

lemma shaped_rowKernel: "shaped (rowKernel xs)"
  by (simp add: shaped_def rowKernel_def)

lemma shaped_colKernel: "shaped (colKernel xs)"
  by (simp add: shaped_def colKernel_def list_all_length)

lemma cellAt_rowKernel:
  assumes "inRange (rowKernel xs) i j"
  shows "cellAt (rowKernel xs) i j = Some (Num (Fin (xs ! nat j)))"
proof -
  have "nat j < length xs" "nat i = 0"
    using assms by (auto simp add: inRange_def rowKernel_def)
  then show ?thesis
    using cellAt_inRange [OF shaped_rowKernel assms] by (simp add: rowKernel_def)
qed

lemma cellAt_colKernel:
  assumes "inRange (colKernel xs) i j"
  shows "cellAt (colKernel xs) i j = Some (Num (Fin (xs ! nat i)))"
proof -
  have "nat i < length xs" "nat j = 0"
    using assms by (auto simp add: inRange_def colKernel_def)
  then show ?thesis
    using cellAt_inRange [OF shaped_colKernel assms] by (simp add: colKernel_def)
qed

lemma sum_rowKernel:
  assumes "k \<le> length xs" and nn: "\<And>x. x \<in> set xs \<Longrightarrow> 0 \<le> x"
  shows "foldE (\<lambda>i sum. bnd (get2 (rowKernel xs) 0 i)
           (\<lambda>c. bnd (numOf c) (\<lambda>x. Inr (jadd_ovf sum x)))) [0..int k - 1] (Fin 0) =
     Inr (if sum_list (take k xs) < overflowBound then Fin (sum_list (take k xs)) else PInf)"
  using assms(1)
proof (induction k)
  case 0
  show ?case using overflowBound_pos by simp
next
  case (Suc k)
  have r: "inRange (rowKernel xs) 0 (int k)"
    using Suc.prems by (simp add: inRange_def rowKernel_def)
  have g: "get2 (rowKernel xs) 0 (int k) = Inr (Num (Fin (xs ! k)))"
    using get2_cell [OF r cellAt_rowKernel [OF r]] by simp
  have t: "take (Suc k) xs = take k xs @ [xs ! k]"
    using Suc.prems by (simp add: take_Suc_conv_app_nth)
  have x: "0 \<le> xs ! k" using Suc.prems by (intro nn) simp
  have "\<And>y. y \<in> set (take k xs) \<Longrightarrow> 0 \<le> y"
    by (rule nn) (rule in_set_takeD)
  then have s: "0 \<le> sum_list (take k xs)" by (rule sum_list_nonneg)
  have "jadd_ovf (if sum_list (take k xs) < overflowBound then Fin (sum_list (take k xs)) else PInf)
          (Fin (xs ! k)) =
        (if sum_list (take k xs) + xs ! k < overflowBound
         then Fin (sum_list (take k xs) + xs ! k) else PInf)"
    using x s overflowBound_pos by (simp add: jadd_ovf_def overflow_def)
  then show ?case
    using Suc.IH Suc.prems
    by (simp only: upto_snoc_nat foldE_append) (simp add: bnd_Inr g numOf_def t)
qed

lemma applyAll_single:
  "\<not> chls M > 1 \<Longrightarrow> applyAll M cb s = applyM M (\<lambda>i j. cb i j None) s"
  by (simp add: applyAll_def applyM_def)

lemma divM_rowKernel:
  assumes "v \<noteq> Fin 0" and q: "\<And>x. x \<in> set xs \<Longrightarrow> jdiv_ovf (Fin x) v = Fin (f x)"
  shows "divM (rowKernel xs) v = Inr (rowKernel (map f xs))"
proof -
  let ?cb = "\<lambda>i j s. case cellAt s i j of
                    Some (Num x) \<Rightarrow> Inr (putCell s i j (Num (jdiv_ovf x v)))
                  | _ \<Rightarrow> Inl OutOfModel"
  have "applyM (rowKernel xs) ?cb (rowKernel xs) =
     Inr ((rowKernel xs)\<lparr>m := map (\<lambda>i. map (\<lambda>j. Num (Fin (f (xs ! nat (int j)))))
        [0..<nat (cols (rowKernel xs))]) [0..<nat (rows (rowKernel xs))]\<rparr>)"
  proof (rule applyM_cells_eq [OF shaped_rowKernel])
    fix i j s
    assume r: "inRange (rowKernel xs) i j" and c: "cellAt s i j = cellAt (rowKernel xs) i j"
    have "nat j < length xs" using r by (auto simp add: inRange_def rowKernel_def)
    then have "jdiv_ovf (Fin (xs ! nat j)) v = Fin (f (xs ! nat j))" by (intro q) simp
    then show "(case cellAt s i j of
                    Some (Num x) \<Rightarrow> Inr (putCell s i j (Num (jdiv_ovf x v)))
                  | _ \<Rightarrow> Inl OutOfModel) = Inr (putCell s i j (Num (Fin (f (xs ! nat j)))))"
      using r by (simp add: c cellAt_rowKernel inRange_def)
  qed
  moreover have "map (\<lambda>j. Num (Fin (f (xs ! j)))) [0..<length xs] = map (\<lambda>x. Num (Fin (f x))) xs"
    by (rule map_nth_fun)
  ultimately have "applyM (rowKernel xs) ?cb (rowKernel xs) = Inr (rowKernel (map f xs))"
    by (simp add: rowKernel_def comp_def)
  moreover have "\<not> chls (rowKernel xs) > 1" by (simp add: rowKernel_def)
  ultimately show ?thesis
    using assms(1) by (simp add: divM_def applyAll_single)
qed

lemma divM_colKernel:
  assumes "v \<noteq> Fin 0" and q: "\<And>x. x \<in> set xs \<Longrightarrow> jdiv_ovf (Fin x) v = Fin (f x)"
  shows "divM (colKernel xs) v = Inr (colKernel (map f xs))"
proof -
  let ?cb = "\<lambda>i j s. case cellAt s i j of
                    Some (Num x) \<Rightarrow> Inr (putCell s i j (Num (jdiv_ovf x v)))
                  | _ \<Rightarrow> Inl OutOfModel"
  have "applyM (colKernel xs) ?cb (colKernel xs) =
     Inr ((colKernel xs)\<lparr>m := map (\<lambda>i. map (\<lambda>j. Num (Fin (f (xs ! nat (int i)))))
        [0..<nat (cols (colKernel xs))]) [0..<nat (rows (colKernel xs))]\<rparr>)"
  proof (rule applyM_cells_eq [OF shaped_colKernel])
    fix i j s
    assume r: "inRange (colKernel xs) i j" and c: "cellAt s i j = cellAt (colKernel xs) i j"
    have "nat i < length xs" using r by (auto simp add: inRange_def colKernel_def)
    then have "jdiv_ovf (Fin (xs ! nat i)) v = Fin (f (xs ! nat i))" by (intro q) simp
    then show "(case cellAt s i j of
                    Some (Num x) \<Rightarrow> Inr (putCell s i j (Num (jdiv_ovf x v)))
                  | _ \<Rightarrow> Inl OutOfModel) = Inr (putCell s i j (Num (Fin (f (xs ! nat i)))))"
      using r by (simp add: c cellAt_colKernel inRange_def)
  qed
  moreover have "map (\<lambda>i. [Num (Fin (f (xs ! i)))]) [0..<length xs] = map (\<lambda>x. [Num (Fin (f x))]) xs"
    by (rule map_nth_fun)
  ultimately have "applyM (colKernel xs) ?cb (colKernel xs) = Inr (colKernel (map f xs))"
    by (simp add: colKernel_def comp_def)
  moreover have "\<not> chls (colKernel xs) > 1" by (simp add: colKernel_def)
  ultimately show ?thesis
    using assms(1) by (simp add: divM_def applyAll_single)
qed

text \<open>
  What \<open>gaussianBlur\<close> does after \<open>pascal\<close>, for a row of numbers that are not negative:
  the sum is the real sum below the bound of overflow and \<open>Infinity\<close> from there on, and
  both kernels are divided by it.
\<close>

lemma gaussianBlur_sum:
  assumes n: "1 \<le> n" and p: "pascal n = map Fin row" and len: "length row = nat n"
    and nn: "\<And>x. x \<in> set row \<Longrightarrow> 0 \<le> x"
    and v: "v = (if sum_list row < overflowBound then Fin (sum_list row) else PInf)"
    and v0: "v \<noteq> Fin 0"
    and q: "\<And>x. x \<in> set row \<Longrightarrow> jdiv_ovf (Fin x) v = Fin (f x)"
  shows "gaussianBlur n = Inr [rowKernel (map f row), colKernel (map f row)]"
proof -
  have ne: "row \<noteq> []" using n len by auto
  have "[0..n - 1] = [0..int (nat n) - 1]" using n by simp
  then have s: "foldE (\<lambda>i sum. bnd (get2 (rowKernel row) 0 i)
        (\<lambda>c. bnd (numOf c) (\<lambda>x. Inr (jadd_ovf sum x)))) [0..n - 1] (Fin 0) = Inr v"
    using sum_rowKernel [of "nat n" row] len nn v by simp
  show ?thesis
    unfolding gaussianBlur_def Let_def p
    by (simp only: load_rowKernel [OF ne] load_colKernel [OF ne] bnd_Inr s
        divM_rowKernel [OF v0 q] divM_colKernel [OF v0 q])
qed

lemma gaussianBlur_rows:
  assumes "1 \<le> n" "n \<le> 1024"
  shows "gaussianBlur n =
     Inr [rowKernel (map (\<lambda>x. x / sum_list (pascalRow (nat n - 1))) (pascalRow (nat n - 1))),
          colKernel (map (\<lambda>x. x / sum_list (pascalRow (nat n - 1))) (pascalRow (nat n - 1)))]"
proof -
  let ?row = "pascalRow (nat n - 1)"
  let ?d = "sum_list ?row"
  have j: "nat n - 1 \<le> 1023" using assms by simp
  have len: "length ?row = nat n" using assms by (simp add: length_pascalRow)
  have d: "?d = 2 ^ (nat n - 1)" by (rule sum_list_pascalRow)
  have db: "?d < overflowBound" unfolding d by (rule pow2_below_bound [OF j])
  have d1: "1 \<le> ?d" unfolding d by simp
  have q: "jdiv_ovf (Fin x) (Fin ?d) = Fin (x / ?d)" if x: "x \<in> set ?row" for x
  proof -
    have "0 \<le> x / ?d" using pascalRow_nonneg [OF x] d1 by simp
    moreover have "x \<le> ?d" using pascalRow_le_pow2 [OF x] by (simp only: d)
    then have "x / ?d \<le> 1" using d1 by (simp add: divide_le_eq_1)
    ultimately have "overflow (Fin (x / ?d)) = Fin (x / ?d)"
      using db d1 overflowBound_pos by (intro overflow_Fin) linarith+
    then show ?thesis using d1 by (simp add: jdiv_ovf_def)
  qed
  have p: "pascal n = map Fin ?row"
    using assms by (intro pascal_binomial) simp_all
  have v: "Fin ?d = (if ?d < overflowBound then Fin ?d else PInf)"
    using db by simp
  have v0: "Fin ?d \<noteq> Fin 0"
    using d1 by auto
  show ?thesis
    by (rule gaussianBlur_sum [OF assms(1) p len pascalRow_nonneg v v0 q])
qed

text \<open>
  At size 1025 the row is still made of finite numbers, but its sum \<open>2^1024\<close> is past the
  bound: the loop ends with \<open>Infinity\<close> and every entry is divided by it.
\<close>

lemma gaussianBlur_infinite_sum:
  "gaussianBlur 1025 =
     Inr [rowKernel (map (\<lambda>x. 0) (pascalRow 1024)), colKernel (map (\<lambda>x. 0) (pascalRow 1024))]"
proof -
  have p: "pascal 1025 = map Fin (pascalRow 1024)"
    using pascal_binomial [of 1025] by simp
  have len: "length (pascalRow 1024) = nat 1025"
    by (simp add: length_pascalRow)
  have "\<not> sum_list (pascalRow 1024) < overflowBound"
    by (simp add: sum_list_pascalRow overflowBound_def)
  then have v: "PInf = (if sum_list (pascalRow 1024) < overflowBound
      then Fin (sum_list (pascalRow 1024)) else PInf)"
    by simp
  show ?thesis
    by (rule gaussianBlur_sum [OF _ p len pascalRow_nonneg v])
      (use overflowBound_pos in \<open>simp_all add: jdiv_ovf_def overflow_def\<close>)
qed

lemma sum_list_divide: "sum_list (map (\<lambda>x. x / d) xs) = sum_list xs / (d :: real)"
  by (induction xs) (simp_all add: add_divide_distrib)

text \<open>
  Claim C6, as the code has it on doubles. For every size \<open>N\<close> from 1 to 54, odd or not,
  \<open>pascal(N)\<close> is the \<open>N\<close>-th row of Pascal's triangle and \<open>gaussianBlur(N)\<close> returns the
  pair of a 1 by \<open>N\<close> row kernel and an \<open>N\<close> by 1 column kernel whose entries are that row
  divided by its sum, so that the entries of each kernel sum to 1. Moreover
  \<open>pascal(1) = [1]\<close>, \<open>pascal(2) = [1, 1]\<close> and \<open>pascal(5) = [1, 4, 6, 4, 1]\<close>.

  The bound is what makes the real numbers of the statement the doubles of the code. The
  entries of the rows are binomial coefficients, the sum of the row is \<open>2^(N - 1)\<close>, at
  most \<open>2^53\<close>, and every entry and every partial sum of the loop is a natural number
  below it: a double holds each of them exactly, and the division by a power of two is
  exact as well, so no operation rounds.
\<close>

theorem gaussianBlur_pascal:
  "(1 \<le> n \<and> n \<le> 54 \<longrightarrow>
      pascal n = map Fin (pascalRow (nat n - 1)) \<and>
      gaussianBlur n =
        Inr [rowKernel (map (\<lambda>x. x / sum_list (pascalRow (nat n - 1))) (pascalRow (nat n - 1))),
             colKernel (map (\<lambda>x. x / sum_list (pascalRow (nat n - 1))) (pascalRow (nat n - 1)))] \<and>
      int (length (pascalRow (nat n - 1))) = n \<and>
      sum_list (map (\<lambda>x. x / sum_list (pascalRow (nat n - 1))) (pascalRow (nat n - 1))) = 1 \<and>
      sum_list (pascalRow (nat n - 1)) = 2 ^ (nat n - 1) \<and>
      sum_list (pascalRow (nat n - 1)) \<le> 2 ^ 53) \<and>
   pascal 1 = [Fin 1] \<and> pascal 2 = [Fin 1, Fin 1] \<and>
   pascal 5 = [Fin 1, Fin 4, Fin 6, Fin 4, Fin 1]"
proof (intro conjI impI)
  assume "1 \<le> n \<and> n \<le> 54"
  then have n: "1 \<le> n" "n \<le> 54" "n \<le> 1024" "n \<le> 1025" by simp_all
  show "pascal n = map Fin (pascalRow (nat n - 1))" by (rule pascal_binomial [OF n(1,4)])
  show "gaussianBlur n =
        Inr [rowKernel (map (\<lambda>x. x / sum_list (pascalRow (nat n - 1))) (pascalRow (nat n - 1))),
             colKernel (map (\<lambda>x. x / sum_list (pascalRow (nat n - 1))) (pascalRow (nat n - 1)))]"
    by (rule gaussianBlur_rows [OF n(1,3)])
  show "int (length (pascalRow (nat n - 1))) = n" using n by (simp add: length_pascalRow)
  show "sum_list (map (\<lambda>x. x / sum_list (pascalRow (nat n - 1))) (pascalRow (nat n - 1))) = 1"
    by (simp add: sum_list_divide sum_list_pascalRow)
  show "sum_list (pascalRow (nat n - 1)) = 2 ^ (nat n - 1)" by (rule sum_list_pascalRow)
  have "(2 :: real) ^ (nat n - 1) \<le> 2 ^ 53"
    using n by (intro power_increasing) simp_all
  then show "sum_list (pascalRow (nat n - 1)) \<le> 2 ^ 53" by (simp only: sum_list_pascalRow)
next
  show "pascal 1 = [Fin 1]" by (simp add: pascal_def)
  show "pascal 2 = [Fin 1, Fin 1]" by (simp add: pascal_def)
  show "pascal 5 = [Fin 1, Fin 4, Fin 6, Fin 4, Fin 1]"
    using pascal_binomial [of 5] by (simp add: pascalRow_def numeral_eq_Suc upt_rec)
qed

text \<open>
  Witness for C6 at \<open>N = 3\<close>: the row is \<open>[1, 2, 1]\<close>, its sum is 4, and the kernels are
  \<open>[1/4, 1/2, 1/4]\<close> as a row and as a column.
\<close>

theorem gaussianBlur_pascal_witness:
  "pascal 3 = [Fin 1, Fin 2, Fin 1] \<and>
   gaussianBlur 3 =
     Inr [\<lparr>m = [[Num (Fin (1 / 4)), Num (Fin (1 / 2)), Num (Fin (1 / 4))]],
           rows = 1, cols = 3, chls = 1\<rparr>,
          \<lparr>m = [[Num (Fin (1 / 4))], [Num (Fin (1 / 2))], [Num (Fin (1 / 4))]],
           rows = 3, cols = 1, chls = 1\<rparr>]"
proof -
  have r: "pascalRow 2 = [1, 2, 1]"
    by (simp add: pascalRow_def numeral_2_eq_2 upt_rec)
  show ?thesis
    using gaussianBlur_pascal [of 3] by (simp add: r rowKernel_def colKernel_def)
qed

text \<open>
  Claim C6 as the specification states it fails: it is stated for every odd size. At
  size 1025 the sum of the row, \<open>2^1024\<close>, is no finite double: the loop that adds the
  entries ends with \<open>Infinity\<close>, and \<open>div\<close> turns every entry of both kernels into 0. The
  kernels are not the row divided by its sum, and their entries sum to 0.
\<close>

theorem gaussianBlur_overflow_counterexample:
  "gaussianBlur 1025 = Inr [rowKernel (replicate 1025 0), colKernel (replicate 1025 0)]"
  using gaussianBlur_infinite_sum
  by (simp only: map_replicate_const length_pascalRow) simp

section \<open>Blends\<close>

lemma wf_px:
  assumes "wfMatrix M" "1 < chls M" "inRange M i j"
  shows "cellAt M i j = Some (Arr (px M i j))" and "int (length (px M i j)) = chls M"
proof -
  note c = cellAt_inRange [OF wfMatrix_shaped [OF assms(1)] assms(3)]
  from wfMatrix_cell [OF assms(1,3)] assms(2)
  obtain xs where "m M ! nat i ! nat j = Arr xs" "int (length xs) = chls M"
    by (auto simp add: wfCell_def split: cell.splits)
  then show "cellAt M i j = Some (Arr (px M i j))" and "int (length (px M i j)) = chls M"
    using c by (simp_all add: px_def)
qed

lemma get3_px:
  assumes "wfMatrix M" "1 < chls M" "inRange M i j" "0 \<le> k" "k < chls M"
  shows "get3 M i j k = Inr (px M i j ! nat k)"
proof -
  have "nat k < length (px M i j)"
    using wf_px(2) [OF assms(1-3)] assms(4,5) by linarith
  then show ?thesis
    using get3_cell [OF assms(3-5) wf_px(1) [OF assms(1-3)]] by simp
qed

lemma length_pixelMap: "length (pixelMap g xs) = length xs"
  by (simp add: pixelMap_def Let_def)

lemma pixelMap_nth_ge3: "3 \<le> n \<Longrightarrow> pixelMap g xs ! n = xs ! n"
  by (simp add: pixelMap_def Let_def)

lemma foldE_three:
  assumes "f 0 s = Inr s1" "f 1 s1 = Inr s2" "f 2 s2 = Inr s3"
  shows "foldE f [0, 1, 2 :: int] s = Inr s3"
  using assms by (simp add: bnd_Inr)

lemma applyAllPixels_px:
  assumes wf: "wfMatrix A" and ch: "3 \<le> chls A"
    and cb: "\<And>i j k s xs. inRange A i j \<Longrightarrow> k \<in> {0, 1, 2} \<Longrightarrow> int (length xs) = chls A \<Longrightarrow>
      (\<And>k'. 0 \<le> k' \<Longrightarrow> k' < chls A \<Longrightarrow> get3 s i j k' = Inr (xs ! nat k')) \<Longrightarrow>
      (\<And>v. set3 s i j v k = Inr (putCell s i j (Arr (xs[nat k := v])))) \<Longrightarrow>
      cb i j k s = Inr (putCell s i j (Arr (xs[nat k := g i j (nat k) xs])))"
  shows "\<exists>A'. applyAllPixels A cb A = Inr A' \<and> wfMatrix A' \<and> rows A' = rows A \<and>
           cols A' = cols A \<and> chls A' = chls A \<and>
           (\<forall>i j. inRange A i j \<longrightarrow> px A' i j = pixelMap (g i j) (px A i j))"
proof -
  note sh = wfMatrix_shaped [OF wf]
  have ch1: "1 < chls A" using ch by simp
  define F where "F i j = Arr (pixelMap (g i j) (px A i j))" for i j
  have one: "cb i j k s = Inr (putCell s i j (Arr (xs[nat k := g i j (nat k) xs])))"
    if r: "inRange A i j" and k: "k \<in> {0, 1, 2}" and l: "int (length xs) = chls A"
      and s: "rows s = rows A" "cols s = cols A" "chls s = chls A" "cellAt s i j = Some (Arr xs)"
    for i j k s xs
  proof (rule cb [OF r k l])
    have rs: "inRange s i j" using r s by (simp add: inRange_def)
    show "get3 s i j k' = Inr (xs ! nat k')" if "0 \<le> k'" "k' < chls A" for k'
    proof -
      have "nat k' < length xs" using that l by linarith
      then show ?thesis using get3_cell [OF rs that(1) _ s(4)] that(2) s(3) by simp
    qed
    show "set3 s i j v k = Inr (putCell s i j (Arr (xs[nat k := v])))" for v
    proof -
      have "0 \<le> k" "k < chls s" "nat k < length xs" using k ch l s(3) by auto
      then show ?thesis using set3_cell [OF rs _ _ s(4)] by simp
    qed
  qed
  have step: "foldE (\<lambda>k. cb i j k) [0, 1, 2] s = Inr (putCell s i j (F i j))"
    if r: "inRange A i j" and s: "shaped s" "rows s = rows A" "cols s = cols A" "chls s = chls A"
      "cellAt s i j = cellAt A i j" for i j s
  proof -
    let ?xs = "px A i j"
    let ?xs1 = "?xs[0 := g i j 0 ?xs]"
    let ?xs2 = "?xs1[1 := g i j 1 ?xs1]"
    let ?xs3 = "?xs2[2 := g i j 2 ?xs2]"
    have c: "cellAt s i j = Some (Arr ?xs)" and l: "int (length ?xs) = chls A"
      using s(5) wf_px [OF wf ch1 r] by simp_all
    have a: "cb i j 0 s = Inr (putCell s i j (Arr ?xs1))"
      using one [OF r _ l s(2-4) c, of 0] by simp
    have c1: "cellAt (putCell s i j (Arr ?xs1)) i j = Some (Arr ?xs1)"
      by (simp add: cellAt_putCell [OF c])
    have b: "cb i j 1 (putCell s i j (Arr ?xs1)) = Inr (putCell s i j (Arr ?xs2))"
      using one [OF r _ _ _ _ _ c1, of 1] l s(2-4)
      by (simp add: putCell_rows putCell_cols putCell_chls putCell_putCell)
    have c2: "cellAt (putCell s i j (Arr ?xs2)) i j = Some (Arr ?xs2)"
      by (simp add: cellAt_putCell [OF c])
    have d: "cb i j 2 (putCell s i j (Arr ?xs2)) = Inr (putCell s i j (Arr ?xs3))"
      using one [OF r _ _ _ _ _ c2, of 2] l s(2-4)
      by (simp add: putCell_rows putCell_cols putCell_chls putCell_putCell)
    show ?thesis
      using foldE_three [of "\<lambda>k. cb i j k", OF a b d]
      by (simp add: F_def pixelMap_def Let_def)
  qed
  have "\<exists>s'. applyM A (\<lambda>i j. foldE (\<lambda>k. cb i j k) [0, 1, 2]) A = Inr s' \<and> shaped s' \<and>
           rows s' = rows A \<and> cols s' = cols A \<and> chls s' = chls A \<and>
           (\<forall>i j. cellAt s' i j = (if inRange A i j then Some (F i j) else cellAt A i j))"
    by (rule applyM_cells0 [OF sh _ step])
  then obtain A' where A': "applyAllPixels A cb A = Inr A'" "shaped A'" "rows A' = rows A"
    "cols A' = cols A" "chls A' = chls A"
    "\<And>i j. cellAt A' i j = (if inRange A i j then Some (F i j) else cellAt A i j)"
    unfolding applyAllPixels_def by blast
  have "wfMatrix A'"
  proof (rule wfMatrixI [OF A'(2)])
    show "\<exists>c. cellAt A' i j = Some c \<and> wfCell (chls A') c" if "inRange A' i j" for i j
    proof -
      have r: "inRange A i j" using that A'(3,4) by (simp add: inRange_def)
      then show ?thesis
        using wf_px(2) [OF wf ch1 r] ch1
        by (simp add: A'(5,6) F_def wfCell_def length_pixelMap)
    qed
  qed (use wf A' in \<open>simp_all add: wfMatrix_def\<close>)
  moreover have "px A' i j = pixelMap (g i j) (px A i j)" if "inRange A i j" for i j
    using that by (simp add: px_def [of A'] A'(6) F_def)
  ultimately show ?thesis using A'(1,3,4,5) by blast
qed

lemma colourOnly_refl: "wfMatrix A \<Longrightarrow> colourOnly A A"
  by (simp add: colourOnly_def)

lemma colourOnly_trans: "colourOnly A A1 \<Longrightarrow> colourOnly A1 A2 \<Longrightarrow> colourOnly A A2"
  by (simp add: colourOnly_def inRange_def)

lemma colourOnly_pixelMap:
  assumes "wfMatrix A'" "rows A' = rows A" "cols A' = cols A" "chls A' = chls A"
    and "\<And>i j. inRange A i j \<Longrightarrow> px A' i j = pixelMap (g i j) (px A i j)"
  shows "colourOnly A A'"
  using assms by (simp add: colourOnly_def length_pixelMap pixelMap_nth_ge3)

lemma colourOnly_alpha:
  assumes wf: "wfMatrix A" and ch: "1 < chls A" and c: "colourOnly A A'" and k: "3 \<le> k"
  shows "get3 A' i j k = get3 A i j k"
proof (cases "inRange A i j \<and> k < chls A")
  case True
  then have r: "inRange A i j" "inRange A' i j" and k': "0 \<le> k" "k < chls A" "k < chls A'"
    using c k by (simp_all add: colourOnly_def inRange_def)
  have wf': "wfMatrix A'" and ch': "1 < chls A'" using c ch by (simp_all add: colourOnly_def)
  have "px A' i j ! nat k = px A i j ! nat k"
    using c r(1) k by (simp add: colourOnly_def)
  then show ?thesis
    using get3_px [OF wf ch r(1) k'(1,2)] get3_px [OF wf' ch' r(2) k'(1,3)] by simp
next
  case False
  then show ?thesis
    using c by (auto simp add: get3_def colourOnly_def inRange_def)
qed

lemma get3_putCell:
  "inRange s i j \<Longrightarrow> cellAt s i j = Some c0 \<Longrightarrow> 0 \<le> k \<Longrightarrow> k < chls s \<Longrightarrow>
   nat k < length xs \<Longrightarrow> get3 (putCell s i j (Arr xs)) i j k = Inr (xs ! nat k)"
  by (rule get3_cell)
    (simp_all add: inRange_putCell putCell_chls cellAt_putCell)

lemma set3_putCell:
  assumes "inRange s i j" "cellAt s i j = Some c0" "0 \<le> k" "k < chls s" "nat k < length xs"
  shows "set3 (putCell s i j (Arr xs)) i j v k = Inr (putCell s i j (Arr (xs[nat k := v])))"
proof -
  have "set3 (putCell s i j (Arr xs)) i j v k =
      Inr (putCell (putCell s i j (Arr xs)) i j (Arr (xs[nat k := v])))"
    by (rule set3_cell)
      (use assms in \<open>simp_all add: inRange_putCell putCell_chls cellAt_putCell\<close>)
  then show ?thesis by (simp add: putCell_putCell)
qed

lemma blend2:
  assumes wf: "wfMatrix A" "wfMatrix B" and ch: "3 \<le> chls A"
    and eq: "rows B = rows A" "cols B = cols A" "chls B = chls A"
  shows "\<exists>A'. applyAllPixels A (\<lambda>i j k s.
           bnd (get3 s i j k) (\<lambda>a. bnd (get3 B i j k) (\<lambda>b. set3 s i j (f a b) k))) A = Inr A' \<and>
         wfMatrix A' \<and> rows A' = rows A \<and> cols A' = cols A \<and> chls A' = chls A \<and>
         (\<forall>i j. inRange A i j \<longrightarrow>
            px A' i j = pixelMap (\<lambda>n xs. f (xs ! n) (px B i j ! n)) (px A i j))"
proof (rule applyAllPixels_px [OF wf(1) ch])
  fix i j k s xs
  assume r: "inRange A i j" and k: "k \<in> {0, 1, 2 :: int}"
    and g: "\<And>k'. 0 \<le> k' \<Longrightarrow> k' < chls A \<Longrightarrow> get3 s i j k' = Inr (xs ! nat k')"
    and st: "\<And>v. set3 s i j v k = Inr (putCell s i j (Arr (xs[nat k := v])))"
  have rB: "inRange B i j" using r eq by (simp add: inRange_def)
  have kk: "0 \<le> k" "k < chls A" "k < chls B" using k ch eq by auto
  have "get3 B i j k = Inr (px B i j ! nat k)"
    using get3_px [OF wf(2) _ rB kk(1,3)] ch eq by simp
  then show "bnd (get3 s i j k) (\<lambda>a. bnd (get3 B i j k) (\<lambda>b. set3 s i j (f a b) k)) =
      Inr (putCell s i j (Arr (xs[nat k := f (xs ! nat k) (px B i j ! nat k)])))"
    by (simp add: g [OF kk(1,2)] bnd_Inr st)
qed

lemma ex_colourOnly:
  assumes "\<exists>A'. X = Inr A' \<and> wfMatrix A' \<and> rows A' = rows A \<and> cols A' = cols A \<and>
      chls A' = chls A \<and> (\<forall>i j. inRange A i j \<longrightarrow> px A' i j = pixelMap (g i j) (px A i j))"
  shows "\<exists>A'. X = Inr A' \<and> colourOnly A A'"
proof -
  from assms obtain A' where A': "X = Inr A'" "wfMatrix A'" "rows A' = rows A" "cols A' = cols A"
    "chls A' = chls A" "\<And>i j. inRange A i j \<Longrightarrow> px A' i j = pixelMap (g i j) (px A i j)"
    by blast
  have "colourOnly A A'" by (rule colourOnly_pixelMap [OF A'(2-6)])
  with A'(1) show ?thesis by blast
qed

lemma blend2_colourOnly:
  assumes wf: "wfMatrix A" "wfMatrix B" and ch: "3 \<le> chls A"
    and eq: "rows B = rows A" "cols B = cols A" "chls B = chls A"
  shows "\<exists>A'. applyAllPixels A (\<lambda>i j k s.
           bnd (get3 s i j k) (\<lambda>a. bnd (get3 B i j k) (\<lambda>b. set3 s i j (f a b) k))) A = Inr A' \<and>
         colourOnly A A'"
  by (rule ex_colourOnly) (rule blend2 [OF assms])

lemma blend2_gen:
  assumes wf: "wfMatrix A" "wfMatrix B" and ch: "3 \<le> chls A"
    and eq: "rows B = rows A" "cols B = cols A" "chls B = chls A"
    and form: "\<And>i j k s a b. get3 s i j k = Inr a \<Longrightarrow> get3 B i j k = Inr b \<Longrightarrow>
      cb i j k s = set3 s i j (f a b) k"
  shows "\<exists>A'. applyAllPixels A cb A = Inr A' \<and>
         wfMatrix A' \<and> rows A' = rows A \<and> cols A' = cols A \<and> chls A' = chls A \<and>
         (\<forall>i j. inRange A i j \<longrightarrow>
            px A' i j = pixelMap (\<lambda>n xs. f (xs ! n) (px B i j ! n)) (px A i j))"
proof (rule applyAllPixels_px [OF wf(1) ch])
  fix i j k s xs
  assume r: "inRange A i j" and k: "k \<in> {0, 1, 2 :: int}"
    and g: "\<And>k'. 0 \<le> k' \<Longrightarrow> k' < chls A \<Longrightarrow> get3 s i j k' = Inr (xs ! nat k')"
    and st: "\<And>v. set3 s i j v k = Inr (putCell s i j (Arr (xs[nat k := v])))"
  have rB: "inRange B i j" using r eq by (simp add: inRange_def)
  have kk: "0 \<le> k" "k < chls A" "k < chls B" using k ch eq by auto
  have "get3 B i j k = Inr (px B i j ! nat k)"
    using get3_px [OF wf(2) _ rB kk(1,3)] ch eq by simp
  from form [OF g [OF kk(1,2)] this]
  show "cb i j k s = Inr (putCell s i j (Arr (xs[nat k := f (xs ! nat k) (px B i j ! nat k)])))"
    by (simp add: st)
qed

lemma blend2_gen_colourOnly:
  assumes "wfMatrix A" "wfMatrix B" "3 \<le> chls A"
    "rows B = rows A" "cols B = cols A" "chls B = chls A"
    and "\<And>i j k s a b. get3 s i j k = Inr a \<Longrightarrow> get3 B i j k = Inr b \<Longrightarrow>
      cb i j k s = set3 s i j (f a b) k"
  shows "\<exists>A'. applyAllPixels A cb A = Inr A' \<and> colourOnly A A'"
  by (rule ex_colourOnly) (rule blend2_gen [OF assms])

lemma blend4_gen:
  assumes wf: "wfMatrix A" "wfMatrix B" and ch: "4 \<le> chls A"
    and eq: "rows B = rows A" "cols B = cols A" "chls B = chls A"
    and form: "\<And>i j k s a a3 b b3. get3 s i j k = Inr a \<Longrightarrow> get3 s i j 3 = Inr a3 \<Longrightarrow>
      get3 B i j k = Inr b \<Longrightarrow> get3 B i j 3 = Inr b3 \<Longrightarrow>
      cb i j k s = set3 s i j (h a a3 b b3) k"
  shows "\<exists>A'. applyAllPixels A cb A = Inr A' \<and>
         wfMatrix A' \<and> rows A' = rows A \<and> cols A' = cols A \<and> chls A' = chls A \<and>
         (\<forall>i j. inRange A i j \<longrightarrow>
            px A' i j =
              pixelMap (\<lambda>n xs. h (xs ! n) (xs ! 3) (px B i j ! n) (px B i j ! 3)) (px A i j))"
proof (rule applyAllPixels_px [OF wf(1)])
  show "3 \<le> chls A" using ch by simp
  fix i j k s xs
  assume r: "inRange A i j" and k: "k \<in> {0, 1, 2 :: int}"
    and g: "\<And>k'. 0 \<le> k' \<Longrightarrow> k' < chls A \<Longrightarrow> get3 s i j k' = Inr (xs ! nat k')"
    and st: "\<And>v. set3 s i j v k = Inr (putCell s i j (Arr (xs[nat k := v])))"
  have rB: "inRange B i j" using r eq by (simp add: inRange_def)
  have kk: "0 \<le> k" "k < chls A" "k < chls B" using k ch eq by auto
  have b: "get3 B i j k = Inr (px B i j ! nat k)"
    using get3_px [OF wf(2) _ rB kk(1,3)] ch eq by simp
  have b3: "get3 B i j 3 = Inr (px B i j ! 3)"
    using get3_px [OF wf(2) _ rB, of 3] ch eq by simp
  have a3: "get3 s i j 3 = Inr (xs ! 3)"
    using g [of 3] ch by simp
  from form [OF g [OF kk(1,2)] a3 b b3]
  show "cb i j k s = Inr (putCell s i j
      (Arr (xs[nat k := h (xs ! nat k) (xs ! 3) (px B i j ! nat k) (px B i j ! 3)])))"
    by (simp add: st)
qed

lemma invert_px:
  assumes wf: "wfMatrix A" and ch: "3 \<le> chls A"
  shows "\<exists>A'. invert A = Inr A' \<and> wfMatrix A' \<and> rows A' = rows A \<and> cols A' = cols A \<and>
           chls A' = chls A \<and>
           (\<forall>i j. inRange A i j \<longrightarrow>
              px A' i j = pixelMap (\<lambda>n xs. jsub (Fin 1) (px A i j ! n)) (px A i j))"
proof -
  note sh = wfMatrix_shaped [OF wf]
  have ch1: "1 < chls A" using ch by simp
  define F where "F i j = Arr (pixelMap (\<lambda>n xs. jsub (Fin 1) (px A i j ! n)) (px A i j))" for i j
  let ?cb = "\<lambda>i j s.
       bnd (get3 s i j 0) (\<lambda>r. bnd (get3 s i j 1) (\<lambda>g. bnd (get3 s i j 2) (\<lambda>b.
       setPixel s i j (jsub (Fin 1) r) (jsub (Fin 1) g) (jsub (Fin 1) b) None)))"
  have step: "?cb i j s = Inr (putCell s i j (F i j))"
    if r: "inRange A i j" and s: "shaped s" "rows s = rows A" "cols s = cols A" "chls s = chls A"
      "cellAt s i j = cellAt A i j" for i j s
  proof -
    let ?xs = "px A i j"
    have c: "cellAt s i j = Some (Arr ?xs)" and l: "int (length ?xs) = chls A"
      using s(5) wf_px [OF wf ch1 r] by simp_all
    have rs: "inRange s i j" using r s by (simp add: inRange_def)
    have len: "0 < length ?xs" "1 < length ?xs" "2 < length ?xs" using l ch by linarith+
    have g: "get3 s i j 0 = Inr (?xs ! 0)" "get3 s i j 1 = Inr (?xs ! 1)"
      "get3 s i j 2 = Inr (?xs ! 2)"
      using get3_cell [OF rs _ _ c, of 0] get3_cell [OF rs _ _ c, of 1]
        get3_cell [OF rs _ _ c, of 2] len ch s(4) by simp_all
    have s0: "set3 s i j v 0 = Inr (putCell s i j (Arr (?xs[0 := v])))" for v
      using set3_cell [OF rs _ _ c, of 0 v] len ch s(4) by simp
    have s1: "set3 (putCell s i j (Arr ys)) i j v 1 = Inr (putCell s i j (Arr (ys[1 := v])))"
      if "length ys = length ?xs" for ys v
      using set3_putCell [OF rs c, of 1 ys v] that len ch s(4) by simp
    have s2: "set3 (putCell s i j (Arr ys)) i j v 2 = Inr (putCell s i j (Arr (ys[2 := v])))"
      if "length ys = length ?xs" for ys v
      using set3_putCell [OF rs c, of 2 ys v] that len ch s(4) by simp
    have "\<not> chls s < 3" "\<not> (i \<ge> rows s \<or> j \<ge> cols s \<or> i < 0 \<or> j < 0)"
      using ch s(4) rs by (auto simp add: inRange_def)
    then show ?thesis
      by (simp add: g bnd_Inr setPixel_def s0 s1 s2 F_def pixelMap_def Let_def)
  qed
  have "\<exists>s'. applyM A ?cb A = Inr s' \<and> shaped s' \<and>
           rows s' = rows A \<and> cols s' = cols A \<and> chls s' = chls A \<and>
           (\<forall>i j. cellAt s' i j = (if inRange A i j then Some (F i j) else cellAt A i j))"
    by (rule applyM_cells0 [OF sh _ step])
  then obtain A' where A': "invert A = Inr A'" "shaped A'" "rows A' = rows A"
    "cols A' = cols A" "chls A' = chls A"
    "\<And>i j. cellAt A' i j = (if inRange A i j then Some (F i j) else cellAt A i j)"
    unfolding invert_def by blast
  have "wfMatrix A'"
  proof (rule wfMatrixI [OF A'(2)])
    show "\<exists>c. cellAt A' i j = Some c \<and> wfCell (chls A') c" if "inRange A' i j" for i j
    proof -
      have r: "inRange A i j" using that A'(3,4) by (simp add: inRange_def)
      then show ?thesis
        using wf_px(2) [OF wf ch1 r] ch1
        by (simp add: A'(5,6) F_def wfCell_def length_pixelMap)
    qed
  qed (use wf A' in \<open>simp_all add: wfMatrix_def\<close>)
  moreover have "px A' i j = pixelMap (\<lambda>n xs. jsub (Fin 1) (px A i j ! n)) (px A i j)"
    if "inRange A i j" for i j
    using that by (simp add: px_def [of A'] A'(6) F_def)
  ultimately show ?thesis using A'(1,3,4,5) by blast
qed

lemma invert_colourOnly:
  assumes "wfMatrix A" "3 \<le> chls A"
  shows "\<exists>A'. invert A = Inr A' \<and> colourOnly A A'"
  by (rule ex_colourOnly) (rule invert_px [OF assms])

lemma addition_colourOnly:
  assumes "wfMatrix A" "wfMatrix B" "3 \<le> chls A"
    "rows B = rows A" "cols B = cols A" "chls B = chls A"
  shows "\<exists>A'. addition A B = Inr A' \<and> colourOnly A A'"
  unfolding addition_def by (rule blend2_colourOnly [OF assms])

lemma subtraction_colourOnly:
  assumes "wfMatrix A" "wfMatrix B" "3 \<le> chls A"
    "rows B = rows A" "cols B = cols A" "chls B = chls A"
  shows "\<exists>A'. subtraction A B = Inr A' \<and> colourOnly A A'"
  unfolding subtraction_def by (rule blend2_colourOnly [OF assms])

lemma multiply_colourOnly:
  assumes "wfMatrix A" "wfMatrix B" "3 \<le> chls A"
    "rows B = rows A" "cols B = cols A" "chls B = chls A"
  shows "\<exists>A'. multiply A B = Inr A' \<and> colourOnly A A'"
  unfolding multiply_def by (rule blend2_colourOnly [OF assms])

lemma divide_colourOnly:
  assumes "wfMatrix A" "wfMatrix B" "3 \<le> chls A"
    "rows B = rows A" "cols B = cols A" "chls B = chls A"
  shows "\<exists>A'. divide_blend A B = Inr A' \<and> colourOnly A A'"
  unfolding divide_blend_def by (rule blend2_colourOnly [OF assms])

lemma difference_colourOnly:
  assumes "wfMatrix A" "wfMatrix B" "3 \<le> chls A"
    "rows B = rows A" "cols B = cols A" "chls B = chls A"
  shows "\<exists>A'. difference A B = Inr A' \<and> colourOnly A A'"
  unfolding difference_def
  by (rule blend2_colourOnly [OF assms, of "\<lambda>a b. Math_abs (jadd a b)"])

lemma screen_colourOnly:
  assumes "wfMatrix A" "wfMatrix B" "3 \<le> chls A"
    "rows B = rows A" "cols B = cols A" "chls B = chls A"
  shows "\<exists>A'. screen A B = Inr A' \<and> colourOnly A A'"
  unfolding screen_def
  by (rule blend2_colourOnly [OF assms,
        of "\<lambda>a b. jsub (Fin 1) (jmul (jsub (Fin 1) a) (jsub (Fin 1) b))"])

lemma darken_colourOnly:
  assumes "wfMatrix A" "wfMatrix B" "3 \<le> chls A"
    "rows B = rows A" "cols B = cols A" "chls B = chls A"
  shows "\<exists>A'. darken A B = Inr A' \<and> colourOnly A A'"
  unfolding darken_def by (rule blend2_colourOnly [OF assms])

lemma lighten_colourOnly:
  assumes "wfMatrix A" "wfMatrix B" "3 \<le> chls A"
    "rows B = rows A" "cols B = cols A" "chls B = chls A"
  shows "\<exists>A'. lighten A B = Inr A' \<and> colourOnly A A'"
  unfolding lighten_def by (rule blend2_colourOnly [OF assms])

lemma overlay_cb_form:
  "get3 s i j k = Inr a \<Longrightarrow> get3 B i j k = Inr b \<Longrightarrow>
   overlay_cb B i j k s =
     set3 s i j (if jlt a (Fin (1 / 2)) then jmul (jmul (Fin 2) a) b
                 else jsub (Fin 1) (jmul (jmul (Fin 2) (jsub (Fin 1) a)) (jsub (Fin 1) b))) k"
  by (simp add: overlay_cb_def bnd_Inr)

lemma overlay_colourOnly:
  assumes "wfMatrix A" "wfMatrix B" "3 \<le> chls A"
    "rows B = rows A" "cols B = cols A" "chls B = chls A"
  shows "\<exists>A'. overlay A B = Inr A' \<and> colourOnly A A'"
  unfolding overlay_def
  by (rule blend2_gen_colourOnly [OF assms]) (rule overlay_cb_form)

lemma burn_colourOnly:
  assumes wf: "wfMatrix A" "wfMatrix B" and ch: "3 \<le> chls A"
    and eq: "rows B = rows A" "cols B = cols A" "chls B = chls A"
    and t: "t = ''multiply'' \<or> t = ''color'' \<or> t = ''linear''"
  shows "\<exists>A'. burn A B t = Inr A' \<and> colourOnly A A'"
proof -
  consider "t = ''multiply''" | "t = ''color''" | "t = ''linear''" using t by blast
  then show ?thesis
  proof cases
    case 1
    then show ?thesis
      using multiply_colourOnly [OF wf ch eq] by (simp add: burn_def)
  next
    case 2
    from invert_colourOnly [OF wf(1) ch]
    obtain A1 where A1: "invert A = Inr A1" "colourOnly A A1" by blast
    then have w1: "wfMatrix A1" "3 \<le> chls A1" "rows B = rows A1" "cols B = cols A1"
      "chls B = chls A1"
      using ch eq by (simp_all add: colourOnly_def)
    from divide_colourOnly [OF w1(1) wf(2) w1(2-5)]
    obtain A2 where A2: "divide_blend A1 B = Inr A2" "colourOnly A1 A2" by blast
    then have w2: "wfMatrix A2" "3 \<le> chls A2" using w1 by (simp_all add: colourOnly_def)
    from invert_colourOnly [OF w2]
    obtain A3 where A3: "invert A2 = Inr A3" "colourOnly A2 A3" by blast
    have "colourOnly A A3"
      using colourOnly_trans [OF colourOnly_trans [OF A1(2) A2(2)] A3(2)] .
    then show ?thesis
      using 2 A1(1) A2(1) A3(1) by (simp add: burn_def bnd_Inr)
  next
    case 3
    have "\<exists>A'. applyAllPixels A (\<lambda>i j k s.
             bnd (get3 s i j k) (\<lambda>a. bnd (get3 B i j k) (\<lambda>b.
             set3 s i j (jsub (jadd a b) (Fin 1)) k))) A = Inr A' \<and> colourOnly A A'"
      by (rule blend2_colourOnly [OF wf ch eq, of "\<lambda>a b. jsub (jadd a b) (Fin 1)"])
    then show ?thesis using 3 by (simp add: burn_def)
  qed
qed

declare dodge.simps [simp del]

lemma foldE_conj:
  "(\<And>x b. x \<in> set xs \<Longrightarrow> f x b = Inr (b \<and> P x)) \<Longrightarrow>
   foldE f xs b = Inr (b \<and> list_all P xs)"
proof (induction xs arbitrary: b)
  case Nil
  show ?case by simp
next
  case (Cons x xs)
  have "f x b = Inr (b \<and> P x)" using Cons.prems by simp
  moreover have "foldE f xs (b \<and> P x) = Inr ((b \<and> P x) \<and> list_all P xs)"
    using Cons.prems by (intro Cons.IH) simp
  ultimately show ?case by (simp add: bnd_Inr)
qed

lemma isWhite_allWhite:
  assumes wf: "wfMatrix B"
  shows "isWhite B = Inr (allWhite B)"
proof (cases "chls B = 3 \<or> chls B = 4")
  case False
  then show ?thesis by (simp add: isWhite_def allWhite_def)
next
  case True
  then have ch1: "1 < chls B" by auto
  let ?cb = "\<lambda>i j k flag. bnd (get3 B i j k) (\<lambda>v. Inr (if v \<noteq> Fin 1 then False else flag))"
  have cell: "foldE (\<lambda>k. ?cb (fst p) (snd p) k) [0, 1, 2] b =
      Inr (b \<and> list_all (\<lambda>k. get3 B (fst p) (snd p) k = Inr (Fin 1)) [0, 1, 2])"
    if p: "p \<in> set (cellsOf B)" for p b
  proof (rule foldE_conj)
    fix k :: int and b
    assume "k \<in> set [0, 1, 2]"
    then have k: "0 \<le> k" "k < chls B" using True by auto
    have r: "inRange B (fst p) (snd p)" using p by (auto simp add: set_cellsOf)
    show "?cb (fst p) (snd p) k b = Inr (b \<and> get3 B (fst p) (snd p) k = Inr (Fin 1))"
      by (auto simp add: get3_px [OF wf ch1 r k] bnd_Inr)
  qed
  have "applyAllPixels B ?cb True =
      Inr (True \<and> list_all
        (\<lambda>p. list_all (\<lambda>k. get3 B (fst p) (snd p) k = Inr (Fin 1)) [0, 1, 2]) (cellsOf B))"
    unfolding applyAllPixels_def applyM_flat
    by (rule foldE_conj) (rule cell)
  then show ?thesis using True by (auto simp add: isWhite_def allWhite_def)
qed

lemma dodge_divide:
  assumes "wfMatrix B"
  shows "dodge A B ''divide'' = (if allWhite B then Inr (A, B) else dodge A B ''color'')"
  by (subst dodge.simps) (simp add: isWhite_allWhite [OF assms])

lemma dodge_colourOnly:
  assumes wf: "wfMatrix A" "wfMatrix B" and ch: "3 \<le> chls A"
    and eq: "rows B = rows A" "cols B = cols A" "chls B = chls A"
    and t: "t = ''screen'' \<or> t = ''color'' \<or> t = ''linear'' \<or> t = ''divide''"
  shows "\<exists>A' B'. dodge A B t = Inr (A', B') \<and> colourOnly A A' \<and> colourOnly B B'"
proof -
  have chB: "3 \<le> chls B" using ch eq by simp
  have color: "\<exists>A' B'. dodge A B ''color'' = Inr (A', B') \<and> colourOnly A A' \<and> colourOnly B B'"
  proof -
    from invert_colourOnly [OF wf(2) chB]
    obtain B1 where B1: "invert B = Inr B1" "colourOnly B B1" by blast
    then have w1: "wfMatrix B1" "3 \<le> chls B1" "rows B1 = rows A" "cols B1 = cols A"
      "chls B1 = chls A"
      using ch eq by (simp_all add: colourOnly_def)
    from divide_colourOnly [OF wf(1) w1(1) ch w1(3-5)]
    obtain A1 where A1: "divide_blend A B1 = Inr A1" "colourOnly A A1" by blast
    from invert_colourOnly [OF w1(1,2)]
    obtain B2 where B2: "invert B1 = Inr B2" "colourOnly B1 B2" by blast
    have "dodge A B ''color'' = Inr (A1, B2)"
      by (subst dodge.simps) (simp add: B1(1) A1(1) B2(1) bnd_Inr)
    then show ?thesis
      using A1(2) colourOnly_trans [OF B1(2) B2(2)] by blast
  qed
  consider "t = ''screen''" | "t = ''color''" | "t = ''linear''" | "t = ''divide''"
    using t by blast
  then show ?thesis
  proof cases
    case 1
    from invert_colourOnly [OF wf(1) ch]
    obtain A1 where A1: "invert A = Inr A1" "colourOnly A A1" by blast
    from invert_colourOnly [OF wf(2) chB]
    obtain B1 where B1: "invert B = Inr B1" "colourOnly B B1" by blast
    have wA1: "wfMatrix A1" "3 \<le> chls A1"
      using A1(2) ch by (simp_all add: colourOnly_def)
    have wB1: "wfMatrix B1" "3 \<le> chls B1" "rows B1 = rows A1" "cols B1 = cols A1"
      "chls B1 = chls A1"
      using A1(2) B1(2) ch eq by (simp_all add: colourOnly_def)
    from multiply_colourOnly [OF wA1(1) wB1(1) wA1(2) wB1(3-5)]
    obtain A2 where A2: "multiply A1 B1 = Inr A2" "colourOnly A1 A2" by blast
    then have wA2: "wfMatrix A2" "3 \<le> chls A2" using wA1 by (simp_all add: colourOnly_def)
    from invert_colourOnly [OF wA2]
    obtain A3 where A3: "invert A2 = Inr A3" "colourOnly A2 A3" by blast
    from invert_colourOnly [OF wB1(1,2)]
    obtain B2 where B2: "invert B1 = Inr B2" "colourOnly B1 B2" by blast
    have "dodge A B ''screen'' = Inr (A3, B2)"
      by (subst dodge.simps) (simp add: A1(1) B1(1) A2(1) A3(1) B2(1) bnd_Inr)
    then show ?thesis
      using 1 colourOnly_trans [OF colourOnly_trans [OF A1(2) A2(2)] A3(2)]
        colourOnly_trans [OF B1(2) B2(2)] by blast
  next
    case 2
    then show ?thesis using color by simp
  next
    case 3
    from addition_colourOnly [OF wf ch eq]
    obtain A1 where A1: "addition A B = Inr A1" "colourOnly A A1" by blast
    have "dodge A B ''linear'' = Inr (A1, B)"
      by (subst dodge.simps) (simp add: A1(1) bnd_Inr)
    then show ?thesis using 3 A1(2) colourOnly_refl [OF wf(2)] by blast
  next
    case 4
    show ?thesis
    proof (cases "allWhite B")
      case True
      then show ?thesis
        using 4 colourOnly_refl wf by (simp add: dodge_divide [OF wf(2)])
    next
      case False
      then show ?thesis
        using 4 color by (simp add: dodge_divide [OF wf(2)])
    qed
  qed
qed

lemma light_soft_form:
  "get3 s i j k = Inr a \<Longrightarrow> get3 B i j k = Inr b \<Longrightarrow>
   bnd (get3 s i j k) (\<lambda>a0.
     if jlt a0 (Fin (1 / 2))
     then bnd (get3 s i j k) (\<lambda>a1. bnd (get3 B i j k) (\<lambda>b1.
          bnd (get3 s i j k) (\<lambda>a2. bnd (get3 B i j k) (\<lambda>b2.
          set3 s i j (jadd (jmul (jmul (Fin 2) a1) b1)
            (jmul (Math_pow2 a2) (jsub (Fin 1) (jmul (Fin 2) b2)))) k))))
     else bnd (get3 s i j k) (\<lambda>a1. bnd (get3 B i j k) (\<lambda>b1.
          bnd (get3 s i j k) (\<lambda>a2. bnd (get3 B i j k) (\<lambda>b2.
          set3 s i j (jadd (jmul (jmul (Fin 2) a1) (jsub (Fin 1) b1))
            (jmul (Math_sqrt a2) (jsub (jmul (Fin 2) b2) (Fin 1)))) k))))) =
   set3 s i j
     (if jlt a (Fin (1 / 2))
      then jadd (jmul (jmul (Fin 2) a) b) (jmul (Math_pow2 a) (jsub (Fin 1) (jmul (Fin 2) b)))
      else jadd (jmul (jmul (Fin 2) a) (jsub (Fin 1) b))
             (jmul (Math_sqrt a) (jsub (jmul (Fin 2) b) (Fin 1)))) k"
  by (simp add: bnd_Inr)

lemma light_colourOnly:
  assumes wf: "wfMatrix A" "wfMatrix B" and ch: "3 \<le> chls A"
    and eq: "rows B = rows A" "cols B = cols A" "chls B = chls A"
    and t: "t = ''soft'' \<or> t = ''hard'' \<or> t = ''vivid'' \<or> t = ''linear''"
  shows "\<exists>A' B'. light A B t = Inr (A', B') \<and> colourOnly A A' \<and> colourOnly B B'"
proof -
  have two: "\<exists>A' B'. bnd (dodge A B u) (\<lambda>(A1, B1). bnd (burn A1 B1 u) (\<lambda>A2. Inr (A2, B1))) =
      Inr (A', B') \<and> colourOnly A A' \<and> colourOnly B B'"
    if u: "u = ''color'' \<or> u = ''linear''" for u
  proof -
    from dodge_colourOnly [OF wf ch eq, of u] u
    obtain A1 B1 where d: "dodge A B u = Inr (A1, B1)" "colourOnly A A1" "colourOnly B B1"
      by blast
    then have w: "wfMatrix A1" "wfMatrix B1" "3 \<le> chls A1" "rows B1 = rows A1"
      "cols B1 = cols A1" "chls B1 = chls A1"
      using ch eq by (simp_all add: colourOnly_def)
    from burn_colourOnly [OF w, of u] u
    obtain A2 where b: "burn A1 B1 u = Inr A2" "colourOnly A1 A2" by blast
    show ?thesis
      using d(1) b(1) colourOnly_trans [OF d(2) b(2)] d(3) by (simp add: bnd_Inr)
  qed
  consider "t = ''soft''" | "t = ''hard''" | "t = ''vivid''" | "t = ''linear''"
    using t by blast
  then show ?thesis
  proof cases
    case 1
    have "\<exists>A'. applyAllPixels A (\<lambda>i j k s.
             bnd (get3 s i j k) (\<lambda>a0.
               if jlt a0 (Fin (1 / 2))
               then bnd (get3 s i j k) (\<lambda>a1. bnd (get3 B i j k) (\<lambda>b1.
                    bnd (get3 s i j k) (\<lambda>a2. bnd (get3 B i j k) (\<lambda>b2.
                    set3 s i j (jadd (jmul (jmul (Fin 2) a1) b1)
                      (jmul (Math_pow2 a2) (jsub (Fin 1) (jmul (Fin 2) b2)))) k))))
               else bnd (get3 s i j k) (\<lambda>a1. bnd (get3 B i j k) (\<lambda>b1.
                    bnd (get3 s i j k) (\<lambda>a2. bnd (get3 B i j k) (\<lambda>b2.
                    set3 s i j (jadd (jmul (jmul (Fin 2) a1) (jsub (Fin 1) b1))
                      (jmul (Math_sqrt a2) (jsub (jmul (Fin 2) b2) (Fin 1)))) k)))))) A
          = Inr A' \<and> colourOnly A A'"
      by (rule blend2_gen_colourOnly [OF wf ch eq]) (rule light_soft_form)
    then show ?thesis
      using 1 colourOnly_refl [OF wf(2)] by (auto simp add: light_def bnd_Inr)
  next
    case 2
    have "\<exists>A'. applyAllPixels A (overlay_cb B) A = Inr A' \<and> colourOnly A A'"
      by (rule blend2_gen_colourOnly [OF wf ch eq]) (rule overlay_cb_form)
    then show ?thesis
      using 2 colourOnly_refl [OF wf(2)] by (auto simp add: light_def bnd_Inr)
  next
    case 3
    then show ?thesis using two [of "''color''"] by (simp add: light_def)
  next
    case 4
    then show ?thesis using two [of "''linear''"] by (simp add: light_def)
  qed
qed

section \<open>Normal blending, dodge and the alpha channel\<close>

lemma pixelMap_local:
  assumes "3 < length xs" "n < 3"
  shows "pixelMap (\<lambda>n xs. H n (xs ! n) (xs ! 3)) xs ! n = H n (xs ! n) (xs ! 3)"
proof -
  have l: "0 < length xs" "1 < length xs" "2 < length xs" using assms(1) by auto
  consider "n = 0" | "n = 1" | "n = 2" using assms(2) by linarith
  then show ?thesis
    using l by cases (simp_all add: pixelMap_def Let_def)
qed

lemma normal_form:
  "get3 s i j k = Inr a \<Longrightarrow> get3 s i j 3 = Inr a3 \<Longrightarrow> get3 B i j k = Inr b \<Longrightarrow>
   get3 B i j 3 = Inr b3 \<Longrightarrow>
   bnd (get3 s i j 3) (\<lambda>aa1. bnd (get3 B i j 3) (\<lambda>ba1. bnd (get3 s i j 3) (\<lambda>aa2.
       let nuA = jadd aa1 (jmul ba1 (jsub (Fin 1) aa2)) in
       bnd (get3 s i j k) (\<lambda>ac. bnd (get3 s i j 3) (\<lambda>aa3.
       bnd (get3 B i j k) (\<lambda>bc. bnd (get3 B i j 3) (\<lambda>ba2. bnd (get3 s i j 3) (\<lambda>aa4.
       set3 s i j
         (jdiv (jadd (jmul ac aa3) (jmul (jmul bc ba2) (jsub (Fin 1) aa4))) nuA) k)))))))) =
   set3 s i j (normalColour a a3 b b3) k"
  by (simp add: bnd_Inr Let_def normalColour_def)

lemma normal_px:
  assumes wf: "wfMatrix A" "wfMatrix B" and ch: "4 \<le> chls A"
    and eq: "rows B = rows A" "cols B = cols A" "chls B = chls A"
  shows "\<exists>A'. normal A B = Inr A' \<and>
         wfMatrix A' \<and> rows A' = rows A \<and> cols A' = cols A \<and> chls A' = chls A \<and>
         (\<forall>i j. inRange A i j \<longrightarrow>
            px A' i j =
              pixelMap (\<lambda>n xs. normalColour (xs ! n) (xs ! 3) (px B i j ! n) (px B i j ! 3))
                (px A i j))"
  unfolding normal_def
  by (rule blend4_gen [OF wf ch eq]) (rule normal_form)

lemma normal_colourOnly:
  assumes "wfMatrix A" "wfMatrix B" "4 \<le> chls A"
    "rows B = rows A" "cols B = cols A" "chls B = chls A"
  shows "\<exists>A'. normal A B = Inr A' \<and> colourOnly A A'"
  by (rule ex_colourOnly) (rule normal_px [OF assms])

lemma normal_channels:
  assumes wf: "wfMatrix A" "wfMatrix B" and ch: "4 \<le> chls A"
    and eq: "rows B = rows A" "cols B = cols A" "chls B = chls A"
  shows "\<exists>A'. normal A B = Inr A' \<and>
         (\<forall>i j c ac aa bc ba. 0 \<le> c \<and> c < 3 \<and> get3 A i j c = Inr ac \<and> get3 A i j 3 = Inr aa \<and>
              get3 B i j c = Inr bc \<and> get3 B i j 3 = Inr ba \<longrightarrow>
            get3 A' i j c = Inr (normalColour ac aa bc ba))"
proof -
  from normal_px [OF assms]
  obtain A' where A': "normal A B = Inr A'" "wfMatrix A'" "rows A' = rows A" "cols A' = cols A"
    "chls A' = chls A"
    "\<And>i j. inRange A i j \<Longrightarrow> px A' i j =
        pixelMap (\<lambda>n xs. normalColour (xs ! n) (xs ! 3) (px B i j ! n) (px B i j ! 3)) (px A i j)"
    by blast
  have ch1: "1 < chls A" "1 < chls B" "1 < chls A'" using ch eq A'(5) by simp_all
  have "get3 A' i j c = Inr (normalColour ac aa bc ba)"
    if c: "0 \<le> c" "c < 3" and g: "get3 A i j c = Inr ac" "get3 A i j 3 = Inr aa"
      "get3 B i j c = Inr bc" "get3 B i j 3 = Inr ba" for i j c ac aa bc ba
  proof -
    have r: "inRange A i j"
      using g(1) by (auto simp add: get3_def inRange_def split: if_splits)
    then have rB: "inRange B i j" and r': "inRange A' i j"
      using eq A'(3,4) by (simp_all add: inRange_def)
    have cc: "c < chls A" "c < chls B" "c < chls A'" "3 < chls A" "3 < chls B"
      using c ch eq A'(5) by simp_all
    have v: "px A i j ! nat c = ac" "px A i j ! 3 = aa" "px B i j ! nat c = bc" "px B i j ! 3 = ba"
      using g get3_px [OF wf(1) ch1(1) r c(1) cc(1)] get3_px [OF wf(1) ch1(1) r _ cc(4)]
        get3_px [OF wf(2) ch1(2) rB c(1) cc(2)] get3_px [OF wf(2) ch1(2) rB _ cc(5)]
      by simp_all
    have len: "3 < length (px A i j)" using wf_px(2) [OF wf(1) ch1(1) r] ch by linarith
    have n: "nat c < 3" using c by linarith
    have "px A' i j ! nat c = normalColour ac aa bc ba"
      using pixelMap_local [OF len n,
          of "\<lambda>n a a3. normalColour a a3 (px B i j ! n) (px B i j ! 3)"] v
      by (simp add: A'(6) [OF r])
    then show ?thesis using get3_px [OF A'(2) ch1(3) r' c(1) cc(3)] by simp
  qed
  then show ?thesis using A'(1) by blast
qed

lemma normalColour_Fin:
  "Aa + Ba * (1 - Aa) \<noteq> 0 \<Longrightarrow>
   normalColour (Fin Ac) (Fin Aa) (Fin Bc) (Fin Ba) =
     Fin ((Ac * Aa + Bc * Ba * (1 - Aa)) / (Aa + Ba * (1 - Aa)))"
  by (simp add: normalColour_def jsub_def)

text \<open>
  Claim C8. For 4-channel matrices \<open>A\<close> and \<open>B\<close> of equal dimensions that satisfy the
  shape invariant, \<open>normal(A, B)\<close> returns, and at every pixel and colour channel
  \<open>c\<close> in 0..2 where the values read are finite and
  \<open>resultAlpha = Aa + Ba * (1 - Aa)\<close> is not 0, the channel of \<open>A\<close> becomes
  \<open>(Ac * Aa + Bc * Ba * (1 - Aa)) / resultAlpha\<close>. In general (infinite values, NaN or a
  zero \<open>resultAlpha\<close> included) it becomes \<open>normalColour\<close> of the four values read.
\<close>

theorem normal_blend_formula:
  assumes "wfMatrix A" "wfMatrix B" "chls A = 4" "chls B = 4" "rows B = rows A" "cols B = cols A"
  shows "\<exists>A'. normal A B = Inr A' \<and>
     (\<forall>i j c Ac Aa Bc Ba. 0 \<le> c \<and> c < 3 \<and> get3 A i j c = Inr (Fin Ac) \<and>
          get3 A i j 3 = Inr (Fin Aa) \<and> get3 B i j c = Inr (Fin Bc) \<and>
          get3 B i j 3 = Inr (Fin Ba) \<and> Aa + Ba * (1 - Aa) \<noteq> 0 \<longrightarrow>
        get3 A' i j c = Inr (Fin ((Ac * Aa + Bc * Ba * (1 - Aa)) / (Aa + Ba * (1 - Aa))))) \<and>
     (\<forall>i j c ac aa bc ba. 0 \<le> c \<and> c < 3 \<and> get3 A i j c = Inr ac \<and> get3 A i j 3 = Inr aa \<and>
          get3 B i j c = Inr bc \<and> get3 B i j 3 = Inr ba \<longrightarrow>
        get3 A' i j c = Inr (normalColour ac aa bc ba))"
proof -
  have "4 \<le> chls A" "chls B = chls A" using assms(3,4) by simp_all
  from normal_channels [OF assms(1,2) this(1) assms(5,6) this(2)]
  obtain A' where A': "normal A B = Inr A'"
    "\<And>i j c ac aa bc ba. 0 \<le> c \<Longrightarrow> c < 3 \<Longrightarrow> get3 A i j c = Inr ac \<Longrightarrow>
       get3 A i j 3 = Inr aa \<Longrightarrow> get3 B i j c = Inr bc \<Longrightarrow> get3 B i j 3 = Inr ba \<Longrightarrow>
       get3 A' i j c = Inr (normalColour ac aa bc ba)"
    by blast
  have "get3 A' i j c = Inr (Fin ((Ac * Aa + Bc * Ba * (1 - Aa)) / (Aa + Ba * (1 - Aa))))"
    if "0 \<le> c" "c < 3" "get3 A i j c = Inr (Fin Ac)" "get3 A i j 3 = Inr (Fin Aa)"
      "get3 B i j c = Inr (Fin Bc)" "get3 B i j 3 = Inr (Fin Ba)" "Aa + Ba * (1 - Aa) \<noteq> 0"
    for i j c Ac Aa Bc Ba
    using A'(2) [OF that(1-6)] normalColour_Fin [OF that(7)] by simp
  then show ?thesis using A' by blast
qed

text \<open>
  Witness for C8: the base pixel \<open>[1/2, 1/4, 1, 1/2]\<close> under the filter pixel
  \<open>[1, 1, 1, 1/2]\<close> has \<open>resultAlpha = 3/4\<close>, and its red channel becomes
  \<open>(1/2 * 1/2 + 1 * 1/2 * 1/2) / (3/4) = 2/3\<close>.
\<close>

theorem normal_blend_formula_witness:
  "wfMatrix \<lparr>m = [[Arr [Fin (1 / 2), Fin (1 / 4), Fin 1, Fin (1 / 2)]]], rows = 1, cols = 1, chls = 4\<rparr> \<and>
   wfMatrix \<lparr>m = [[Arr [Fin 1, Fin 1, Fin 1, Fin (1 / 2)]]], rows = 1, cols = 1, chls = 4\<rparr> \<and>
   (\<exists>A'. normal \<lparr>m = [[Arr [Fin (1 / 2), Fin (1 / 4), Fin 1, Fin (1 / 2)]]], rows = 1, cols = 1, chls = 4\<rparr>
            \<lparr>m = [[Arr [Fin 1, Fin 1, Fin 1, Fin (1 / 2)]]], rows = 1, cols = 1, chls = 4\<rparr> = Inr A' \<and>
      get3 A' 0 0 0 = Inr (Fin (2 / 3)))"
proof -
  let ?A = "\<lparr>m = [[Arr [Fin (1 / 2), Fin (1 / 4), Fin 1, Fin (1 / 2)]]], rows = 1, cols = 1, chls = 4\<rparr>"
  let ?B = "\<lparr>m = [[Arr [Fin 1, Fin 1, Fin 1, Fin (1 / 2)]]], rows = 1, cols = 1, chls = 4\<rparr>"
  have wA: "wfMatrix ?A" and wB: "wfMatrix ?B" by (simp_all add: wfMatrix_def wfCell_def)
  have g: "get3 ?A 0 0 0 = Inr (Fin (1 / 2))" "get3 ?A 0 0 3 = Inr (Fin (1 / 2))"
    "get3 ?B 0 0 0 = Inr (Fin 1)" "get3 ?B 0 0 3 = Inr (Fin (1 / 2))"
    by (simp_all add: get3_def cellAt_def rowAt_def)
  from normal_blend_formula [OF wA wB]
  obtain A' where A': "normal ?A ?B = Inr A'"
    "\<And>i j c Ac Aa Bc Ba. 0 \<le> c \<Longrightarrow> c < 3 \<Longrightarrow> get3 ?A i j c = Inr (Fin Ac) \<Longrightarrow>
          get3 ?A i j 3 = Inr (Fin Aa) \<Longrightarrow> get3 ?B i j c = Inr (Fin Bc) \<Longrightarrow>
          get3 ?B i j 3 = Inr (Fin Ba) \<Longrightarrow> Aa + Ba * (1 - Aa) \<noteq> 0 \<Longrightarrow>
        get3 A' i j c = Inr (Fin ((Ac * Aa + Bc * Ba * (1 - Aa)) / (Aa + Ba * (1 - Aa))))"
    by auto
  have "get3 A' 0 0 0 = Inr (Fin (2 / 3))"
    using A'(2) [OF _ _ g] by simp
  then show ?thesis using wA wB A'(1) by blast
qed

text \<open>
  Claim C7. For every filter \<open>B\<close> that satisfies the shape invariant, \<open>B.isWhite()\<close>
  returns whether \<open>B\<close> is all-white in the spec's sense (3 or 4 channels, every colour
  channel of every pixel equal to 1). When \<open>B\<close> is not all-white, \<open>dodge(A, B, 'divide')\<close>
  is the call \<open>dodge(A, B, 'color')\<close>, with the same outcome for \<open>A\<close> (and \<open>B\<close>); when \<open>B\<close>
  is all-white it returns with \<open>A\<close> and \<open>B\<close> exactly as they were.
\<close>

theorem dodge_divide_mode:
  assumes "wfMatrix B"
  shows "isWhite B = Inr (allWhite B) \<and>
         (\<not> allWhite B \<longrightarrow> dodge A B ''divide'' = dodge A B ''color'') \<and>
         (allWhite B \<longrightarrow> dodge A B ''divide'' = Inr (A, B))"
  using isWhite_allWhite [OF assms] dodge_divide [OF assms, of A] by simp

text \<open>
  Witness for C7: with the white filter pixel \<open>[1, 1, 1, 1/2]\<close> the base is returned as it
  is; with the filter pixel \<open>[1, 1/2, 1, 1/2]\<close> the mode \<open>divide\<close> does what \<open>color\<close>
  does, here dividing the red and blue channels by 0.
\<close>

theorem dodge_divide_mode_witness:
  "wfMatrix \<lparr>m = [[Arr [Fin 1, Fin 1, Fin 1, Fin (1 / 2)]]], rows = 1, cols = 1, chls = 4\<rparr> \<and>
   allWhite \<lparr>m = [[Arr [Fin 1, Fin 1, Fin 1, Fin (1 / 2)]]], rows = 1, cols = 1, chls = 4\<rparr> \<and>
   dodge \<lparr>m = [[Arr [Fin (1 / 2), Fin (1 / 4), Fin 1, Fin (1 / 2)]]], rows = 1, cols = 1, chls = 4\<rparr>
     \<lparr>m = [[Arr [Fin 1, Fin 1, Fin 1, Fin (1 / 2)]]], rows = 1, cols = 1, chls = 4\<rparr> ''divide'' =
   Inr (\<lparr>m = [[Arr [Fin (1 / 2), Fin (1 / 4), Fin 1, Fin (1 / 2)]]], rows = 1, cols = 1, chls = 4\<rparr>,
        \<lparr>m = [[Arr [Fin 1, Fin 1, Fin 1, Fin (1 / 2)]]], rows = 1, cols = 1, chls = 4\<rparr>) \<and>
   wfMatrix \<lparr>m = [[Arr [Fin 1, Fin (1 / 2), Fin 1, Fin (1 / 2)]]], rows = 1, cols = 1, chls = 4\<rparr> \<and>
   \<not> allWhite \<lparr>m = [[Arr [Fin 1, Fin (1 / 2), Fin 1, Fin (1 / 2)]]], rows = 1, cols = 1, chls = 4\<rparr> \<and>
   dodge \<lparr>m = [[Arr [Fin (1 / 2), Fin (1 / 4), Fin 1, Fin (1 / 2)]]], rows = 1, cols = 1, chls = 4\<rparr>
     \<lparr>m = [[Arr [Fin 1, Fin (1 / 2), Fin 1, Fin (1 / 2)]]], rows = 1, cols = 1, chls = 4\<rparr> ''divide'' =
   dodge \<lparr>m = [[Arr [Fin (1 / 2), Fin (1 / 4), Fin 1, Fin (1 / 2)]]], rows = 1, cols = 1, chls = 4\<rparr>
     \<lparr>m = [[Arr [Fin 1, Fin (1 / 2), Fin 1, Fin (1 / 2)]]], rows = 1, cols = 1, chls = 4\<rparr> ''color'' \<and>
   dodge \<lparr>m = [[Arr [Fin (1 / 2), Fin (1 / 4), Fin 1, Fin (1 / 2)]]], rows = 1, cols = 1, chls = 4\<rparr>
     \<lparr>m = [[Arr [Fin 1, Fin (1 / 2), Fin 1, Fin (1 / 2)]]], rows = 1, cols = 1, chls = 4\<rparr> ''color'' =
   Inr (\<lparr>m = [[Arr [PInf, Fin (1 / 2), PInf, Fin (1 / 2)]]], rows = 1, cols = 1, chls = 4\<rparr>,
        \<lparr>m = [[Arr [Fin 1, Fin (1 / 2), Fin 1, Fin (1 / 2)]]], rows = 1, cols = 1, chls = 4\<rparr>)"
proof -
  let ?A = "\<lparr>m = [[Arr [Fin (1 / 2), Fin (1 / 4), Fin 1, Fin (1 / 2)]]], rows = 1, cols = 1, chls = 4\<rparr>"
  let ?W = "\<lparr>m = [[Arr [Fin 1, Fin 1, Fin 1, Fin (1 / 2)]]], rows = 1, cols = 1, chls = 4\<rparr>"
  let ?B = "\<lparr>m = [[Arr [Fin 1, Fin (1 / 2), Fin 1, Fin (1 / 2)]]], rows = 1, cols = 1, chls = 4\<rparr>"
  have wW: "wfMatrix ?W" and wB: "wfMatrix ?B" by (simp_all add: wfMatrix_def wfCell_def)
  have aW: "allWhite ?W" and aB: "\<not> allWhite ?B" by code_simp+
  have c: "dodge ?A ?B ''color'' =
      Inr (\<lparr>m = [[Arr [PInf, Fin (1 / 2), PInf, Fin (1 / 2)]]], rows = 1, cols = 1, chls = 4\<rparr>, ?B)"
    by code_simp
  show ?thesis
    using wW wB aW aB c dodge_divide_mode [OF wW, of ?A] dodge_divide_mode [OF wB, of ?A]
    by simp
qed

lemma colourOnly_alphaKept:
  assumes "wfMatrix A" "1 < chls A" "\<exists>A'. r = Inr A' \<and> colourOnly A A'"
  shows "alphaKept A r"
  using assms colourOnly_alpha [OF assms(1,2), of _ 3] by (auto simp add: alphaKept_def)

lemma colourOnly_alphaKept2:
  assumes "wfMatrix A" "1 < chls A"
    "\<exists>A' B'. r = Inr (A', B') \<and> colourOnly A A' \<and> colourOnly B B'"
  shows "alphaKept2 A r"
proof -
  from assms(3) obtain A' B' where r: "r = Inr (A', B')" "colourOnly A A'" by blast
  have "get3 A' i j 3 = get3 A i j 3" for i j
    using colourOnly_alpha [OF assms(1,2) r(2), of 3] by simp
  then show ?thesis using r(1) by (auto simp add: alphaKept2_def)
qed

text \<open>
  Claim C10. For 4-channel matrices \<open>A\<close> and \<open>B\<close> of equal dimensions that satisfy the
  shape invariant, each blend returns, and channel 3 of the matrix it returns reads at
  every index as it does in \<open>A\<close> before the call: \<open>addition\<close>, \<open>subtraction\<close>, \<open>multiply\<close>,
  \<open>divide\<close>, \<open>difference\<close>, \<open>screen\<close>, \<open>overlay\<close>, \<open>darken\<close>, \<open>lighten\<close>, \<open>normal\<close>, and
  \<open>light\<close>, \<open>dodge\<close> and \<open>burn\<close> in each of their modes.
\<close>

theorem blends_keep_alpha:
  assumes "wfMatrix A" "wfMatrix B" "chls A = 4" "chls B = 4" "rows B = rows A" "cols B = cols A"
  shows "alphaKept A (addition A B) \<and> alphaKept A (subtraction A B) \<and>
         alphaKept A (multiply A B) \<and> alphaKept A (divide_blend A B) \<and>
         alphaKept A (difference A B) \<and> alphaKept A (screen A B) \<and>
         alphaKept A (overlay A B) \<and> alphaKept A (darken A B) \<and>
         alphaKept A (lighten A B) \<and> alphaKept A (normal A B) \<and>
         (\<forall>t \<in> set [''soft'', ''hard'', ''vivid'', ''linear'']. alphaKept2 A (light A B t)) \<and>
         (\<forall>t \<in> set [''screen'', ''color'', ''linear'', ''divide'']. alphaKept2 A (dodge A B t)) \<and>
         (\<forall>t \<in> set [''multiply'', ''color'', ''linear'']. alphaKept A (burn A B t))"
proof -
  have ch: "3 \<le> chls A" "4 \<le> chls A" "1 < chls A" and e: "chls B = chls A"
    using assms(3,4) by simp_all
  note h = assms(1,2) ch(1) assms(5,6) e
  note k = colourOnly_alphaKept [OF assms(1) ch(3)]
  have "alphaKept A (addition A B)" by (rule k) (rule addition_colourOnly [OF h])
  moreover have "alphaKept A (subtraction A B)" by (rule k) (rule subtraction_colourOnly [OF h])
  moreover have "alphaKept A (multiply A B)" by (rule k) (rule multiply_colourOnly [OF h])
  moreover have "alphaKept A (divide_blend A B)" by (rule k) (rule divide_colourOnly [OF h])
  moreover have "alphaKept A (difference A B)" by (rule k) (rule difference_colourOnly [OF h])
  moreover have "alphaKept A (screen A B)" by (rule k) (rule screen_colourOnly [OF h])
  moreover have "alphaKept A (overlay A B)" by (rule k) (rule overlay_colourOnly [OF h])
  moreover have "alphaKept A (darken A B)" by (rule k) (rule darken_colourOnly [OF h])
  moreover have "alphaKept A (lighten A B)" by (rule k) (rule lighten_colourOnly [OF h])
  moreover have "alphaKept A (normal A B)"
    by (rule k) (rule normal_colourOnly [OF assms(1,2) ch(2) assms(5,6) e])
  moreover have "alphaKept2 A (light A B t)"
    if "t \<in> set [''soft'', ''hard'', ''vivid'', ''linear'']" for t
    by (rule colourOnly_alphaKept2 [OF assms(1) ch(3)], rule light_colourOnly [OF h])
      (use that in auto)
  moreover have "alphaKept2 A (dodge A B t)"
    if "t \<in> set [''screen'', ''color'', ''linear'', ''divide'']" for t
    by (rule colourOnly_alphaKept2 [OF assms(1) ch(3)], rule dodge_colourOnly [OF h])
      (use that in auto)
  moreover have "alphaKept A (burn A B t)"
    if "t \<in> set [''multiply'', ''color'', ''linear'']" for t
    by (rule k, rule burn_colourOnly [OF h]) (use that in auto)
  ultimately show ?thesis by blast
qed

text \<open>
  Witness for C10 on the base pixel \<open>[1/2, 1/4, 1, 1/2]\<close> and the filter pixel
  \<open>[1, 1/2, 1, 1/4]\<close>: after \<open>normal\<close>, and after \<open>dodge\<close> in its mode \<open>color\<close>, the alpha
  of the base still reads \<open>1/2\<close>.
\<close>

theorem blends_keep_alpha_witness:
  "wfMatrix \<lparr>m = [[Arr [Fin (1 / 2), Fin (1 / 4), Fin 1, Fin (1 / 2)]]], rows = 1, cols = 1, chls = 4\<rparr> \<and>
   wfMatrix \<lparr>m = [[Arr [Fin 1, Fin (1 / 2), Fin 1, Fin (1 / 4)]]], rows = 1, cols = 1, chls = 4\<rparr> \<and>
   (\<exists>A'. normal \<lparr>m = [[Arr [Fin (1 / 2), Fin (1 / 4), Fin 1, Fin (1 / 2)]]], rows = 1, cols = 1, chls = 4\<rparr>
            \<lparr>m = [[Arr [Fin 1, Fin (1 / 2), Fin 1, Fin (1 / 4)]]], rows = 1, cols = 1, chls = 4\<rparr> = Inr A' \<and>
      get3 A' 0 0 3 = Inr (Fin (1 / 2))) \<and>
   (\<exists>A' B'. dodge \<lparr>m = [[Arr [Fin (1 / 2), Fin (1 / 4), Fin 1, Fin (1 / 2)]]], rows = 1, cols = 1, chls = 4\<rparr>
            \<lparr>m = [[Arr [Fin 1, Fin (1 / 2), Fin 1, Fin (1 / 4)]]], rows = 1, cols = 1, chls = 4\<rparr> ''color'' =
         Inr (A', B') \<and>
      get3 A' 0 0 3 = Inr (Fin (1 / 2)))"
proof -
  let ?A = "\<lparr>m = [[Arr [Fin (1 / 2), Fin (1 / 4), Fin 1, Fin (1 / 2)]]], rows = 1, cols = 1, chls = 4\<rparr>"
  let ?B = "\<lparr>m = [[Arr [Fin 1, Fin (1 / 2), Fin 1, Fin (1 / 4)]]], rows = 1, cols = 1, chls = 4\<rparr>"
  have wA: "wfMatrix ?A" and wB: "wfMatrix ?B" by (simp_all add: wfMatrix_def wfCell_def)
  have g: "get3 ?A 0 0 3 = Inr (Fin (1 / 2))"
    by (simp add: get3_def cellAt_def rowAt_def)
  have "alphaKept ?A (normal ?A ?B)" "alphaKept2 ?A (dodge ?A ?B ''color'')"
    using blends_keep_alpha [OF wA wB] by simp_all
  then show ?thesis
    using wA wB g unfolding alphaKept_def alphaKept2_def by metis
qed

section \<open>Cropping\<close>

lemma shaped_replicate:
  "0 \<le> r \<Longrightarrow> 0 \<le> c \<Longrightarrow>
   shaped \<lparr>m = replicate (nat r) (replicate (nat c) x), rows = r, cols = c, chls = ch\<rparr>"
  by (simp add: shaped_def list_all_length)

text \<open>
  Claim C9. Let \<open>A\<close> satisfy the shape invariant and let the corners span a non-empty
  rectangle inside it: \<open>x1 \<noteq> x2\<close>, \<open>y1 \<noteq> y2\<close>, the \<open>x\<close> between 0 and \<open>rows\<close>, the \<open>y\<close>
  between 0 and \<open>cols\<close>. Then \<open>crop\<close> returns a matrix of \<open>|x2 - x1|\<close> rows and
  \<open>|y2 - y1|\<close> columns, with the channel count of \<open>A\<close>, whose cell at \<open>(i, j)\<close> is the cell
  of \<open>A\<close> at \<open>(i + min x1 x2, j + min y1 y2)\<close>. The source only reads \<open>A\<close> (\<open>getChls\<close> and
  \<open>get\<close>), so \<open>A\<close> is as before; the model's \<open>crop\<close> accordingly has no second result.
  (In JavaScript the cells of the result are the very pixel arrays of \<open>A\<close>.)
\<close>

theorem crop_rectangle:
  assumes wf: "wfMatrix A"
    and x: "0 \<le> min x1 x2" "max x1 x2 \<le> rows A" "x1 \<noteq> x2"
    and y: "0 \<le> min y1 y2" "max y1 y2 \<le> cols A" "y1 \<noteq> y2"
  shows "\<exists>C. crop A x1 y1 x2 y2 = Inr C \<and> wfMatrix C \<and> rows C = \<bar>x2 - x1\<bar> \<and>
           cols C = \<bar>y2 - y1\<bar> \<and> chls C = chls A \<and>
           (\<forall>i j. 0 \<le> i \<and> i < \<bar>x2 - x1\<bar> \<and> 0 \<le> j \<and> j < \<bar>y2 - y1\<bar> \<longrightarrow>
              get2 C i j = get2 A (i + min x1 x2) (j + min y1 y2))"
proof -
  note sh = wfMatrix_shaped [OF wf]
  let ?r = "\<bar>x2 - x1\<bar>" and ?c = "\<bar>y2 - y1\<bar>"
  let ?ox = "min x1 x2" and ?oy = "min y1 y2"
  have b: "chls A < 2 ^ 32" "1 \<le> chls A" "rows A < 2 ^ 32" "cols A < 2 ^ 32"
    using wf by (simp_all add: wfMatrix_def)
  have r: "1 \<le> ?r" "?r \<le> rows A" and c: "1 \<le> ?c" "?c \<le> cols A"
    using x y by linarith+
  define x0 where "x0 = (if 1 < chls A then Arr (replicate (nat (chls A)) (Fin 0)) else Num (Fin 0))"
  define cr where "cr = \<lparr>m = replicate (nat ?r) (replicate (nat ?c) x0), rows = ?r, cols = ?c,
    chls = chls A\<rparr>"
  have gen: "Matrix_new (of_int ?r) (of_int ?c) (Some (of_int (chls A))) = Inr cr"
    unfolding Matrix_new_def cr_def x0_def
    using generate_int [of ?r ?c "chls A" None] r c b by simp
  have shc: "shaped cr" unfolding cr_def using r c by (intro shaped_replicate) simp_all
  define F where "F i j = m A ! nat (i + ?ox) ! nat (j + ?oy)" for i j
  have inA: "inRange A (i + ?ox) (j + ?oy)" if "inRange cr i j" for i j
    using that x y by (auto simp add: inRange_def cr_def)
  have step: "bnd (get2 A (i + ?ox) (j + ?oy)) (\<lambda>c. set2 s i j c) = Inr (putCell s i j (F i j))"
    if ir: "inRange cr i j" and s: "shaped s" "rows s = rows cr" "cols s = cols cr"
      "chls s = chls cr" "cellAt s i j = cellAt cr i j" for i j s
  proof -
    have g: "get2 A (i + ?ox) (j + ?oy) = Inr (F i j)"
      using get2_cell [OF inA [OF ir] cellAt_inRange [OF sh inA [OF ir]]] by (simp add: F_def)
    have rs: "inRange s i j" using ir s by (simp add: inRange_def)
    have "cellAt s i j = Some (m cr ! nat i ! nat j)"
      using s(5) cellAt_inRange [OF shc ir] by simp
    from set2_cell [OF rs this] g show ?thesis by (simp add: bnd_Inr)
  qed
  have "\<exists>s'. applyM cr (\<lambda>i j s. bnd (get2 A (i + ?ox) (j + ?oy)) (\<lambda>c. set2 s i j c)) cr = Inr s' \<and>
      shaped s' \<and> rows s' = rows cr \<and> cols s' = cols cr \<and> chls s' = chls cr \<and>
      (\<forall>i j. cellAt s' i j = (if inRange cr i j then Some (F i j) else cellAt cr i j))"
    by (rule applyM_cells0 [OF shc _ step])
  then obtain C where C: "crop A x1 y1 x2 y2 = Inr C" "shaped C" "rows C = ?r" "cols C = ?c"
    "chls C = chls A"
    "\<And>i j. cellAt C i j = (if inRange cr i j then Some (F i j) else cellAt cr i j)"
    unfolding crop_def Let_def gen bnd_Inr by (auto simp add: cr_def)
  have rr: "inRange C i j = inRange cr i j" for i j
    by (simp add: inRange_def C(3,4) cr_def)
  have "wfMatrix C"
  proof (rule wfMatrixI [OF C(2)])
    show "\<exists>c. cellAt C i j = Some c \<and> wfCell (chls C) c" if "inRange C i j" for i j
      using that wfMatrix_cell [OF wf inA [of i j]] by (simp add: rr C(5,6) F_def)
  qed (use b r c C in simp_all)
  moreover have "get2 C i j = get2 A (i + ?ox) (j + ?oy)"
    if "0 \<le> i" "i < ?r" "0 \<le> j" "j < ?c" for i j
  proof -
    have ir: "inRange cr i j" using that by (simp add: inRange_def cr_def)
    then have "inRange C i j" by (simp add: rr)
    from get2_cell [OF this, of "F i j"] C(6) [of i j] ir
    have "get2 C i j = Inr (F i j)" by simp
    moreover have "get2 A (i + ?ox) (j + ?oy) = Inr (F i j)"
      using get2_cell [OF inA [OF ir] cellAt_inRange [OF sh inA [OF ir]]] by (simp add: F_def)
    ultimately show ?thesis by simp
  qed
  ultimately show ?thesis using C(1,3,4,5) by blast
qed

text \<open>
  Witness for C9: cropping the 1 by 2 image with pixels \<open>[1/2, 1/4, 1, 1/2]\<close> and
  \<open>[0, 2, 3/4, 1]\<close> between the corners \<open>(0, 2)\<close> and \<open>(1, 1)\<close> gives the 1 by 1 image of the
  second pixel.
\<close>

theorem crop_rectangle_witness:
  "wfMatrix \<lparr>m = [[Arr [Fin (1 / 2), Fin (1 / 4), Fin 1, Fin (1 / 2)],
                   Arr [Fin 0, Fin 2, Fin (3 / 4), Fin 1]]], rows = 1, cols = 2, chls = 4\<rparr> \<and>
   (\<exists>C. crop \<lparr>m = [[Arr [Fin (1 / 2), Fin (1 / 4), Fin 1, Fin (1 / 2)],
                   Arr [Fin 0, Fin 2, Fin (3 / 4), Fin 1]]], rows = 1, cols = 2, chls = 4\<rparr>
           0 2 1 1 = Inr C \<and>
      rows C = 1 \<and> cols C = 1 \<and> chls C = 4 \<and>
      get2 C 0 0 = Inr (Arr [Fin 0, Fin 2, Fin (3 / 4), Fin 1]))"
proof -
  let ?A = "\<lparr>m = [[Arr [Fin (1 / 2), Fin (1 / 4), Fin 1, Fin (1 / 2)],
                   Arr [Fin 0, Fin 2, Fin (3 / 4), Fin 1]]], rows = 1, cols = 2, chls = 4\<rparr>"
  have w: "wfMatrix ?A" by (simp add: wfMatrix_def wfCell_def)
  have g: "get2 ?A 0 1 = Inr (Arr [Fin 0, Fin 2, Fin (3 / 4), Fin 1])"
    by (simp add: get2_def cellAt_def rowAt_def)
  from crop_rectangle [OF w, of 0 1 2 1]
  obtain C where C: "crop ?A 0 2 1 1 = Inr C" "rows C = 1" "cols C = 1" "chls C = 4"
    "\<And>i j. 0 \<le> i \<Longrightarrow> i < 1 \<Longrightarrow> 0 \<le> j \<Longrightarrow> j < 1 \<Longrightarrow> get2 C i j = get2 ?A i (j + 1)"
    by auto
  have "get2 C 0 0 = Inr (Arr [Fin 0, Fin 2, Fin (3 / 4), Fin 1])"
    using C(5) [of 0 0] g by simp
  then show ?thesis using w C(1-4) by blast
qed

section \<open>Convolution\<close>

lemma foldE_inv:
  assumes "\<And>x s. x \<in> set xs \<Longrightarrow> I s \<Longrightarrow> \<exists>s'. f x s = Inr s' \<and> I s'" and "I s"
  shows "\<exists>s'. foldE f xs s = Inr s' \<and> I s'"
  using assms
proof (induction xs arbitrary: s)
  case Nil
  then show ?case by simp
next
  case (Cons x xs)
  from Cons.prems(1) [of x s] Cons.prems(2)
  obtain s1 where s1: "f x s = Inr s1" "I s1" by auto
  from Cons.IH [OF _ s1(2)] Cons.prems(1)
  obtain s' where "foldE f xs s1 = Inr s'" "I s'" by auto
  then show ?case using s1(1) by (simp add: bnd_Inr)
qed

lemma swapCol_ok:
  assumes "sameSize M s" "0 \<le> j" "j < cols M" "0 \<le> j2" "j2 < cols M"
  shows "\<exists>s'. swapCol s j j2 = Inr s' \<and> sameSize M s'"
  unfolding swapCol_def
proof (rule foldE_inv [where I = "sameSize M"])
  show "sameSize M s" by (rule assms(1))
  fix i t
  assume i: "i \<in> set [0..rows s - 1]" and t: "sameSize M t"
  have r: "inRange t i j" "inRange t i j2"
    using i t assms by (auto simp add: inRange_def sameSize_def)
  have sh: "shaped t" using t by (simp add: sameSize_def)
  have "sameSize M (putCell (putCell t i j b) i j2 a)" for a b
    using t by (simp add: sameSize_def shaped_putCell putCell_rows putCell_cols putCell_chls)
  then show "\<exists>s'. (case (cellAt t i j, cellAt t i j2) of
            (Some a, Some b) \<Rightarrow> Inr (putCell (putCell t i j b) i j2 a)
          | _ \<Rightarrow> Inl OutOfModel) = Inr s' \<and> sameSize M s'"
    by (simp add: cellAt_inRange [OF sh r(1)] cellAt_inRange [OF sh r(2)])
qed

lemma swapRow_ok:
  assumes "sameSize M s" "0 \<le> i" "i < rows M" "0 \<le> i2" "i2 < rows M"
  shows "\<exists>s'. swapRow s i i2 = Inr s' \<and> sameSize M s'"
proof -
  have sh: "shaped s" and e: "rows s = rows M" using assms(1) by (simp_all add: sameSize_def)
  have l: "nat i < length (m s)" "nat i2 < length (m s)"
    using assms(2-5) e by (simp_all add: shaped_rows [OF sh])
  have "shaped (s\<lparr>m := (m s)[nat i := m s ! nat i2, nat i2 := m s ! nat i]\<rparr>)"
    using sh l by (auto simp add: shaped_def list_all_length nth_list_update)
  then show ?thesis
    using assms l by (simp add: swapRow_def rowAt_def sameSize_def)
qed

lemma flipXY_ok:
  assumes "shaped M"
  shows "\<exists>s'. flipXY M = Inr s' \<and> sameSize M s'"
proof -
  have s0: "sameSize M M" using assms by (simp add: sameSize_def)
  have "\<exists>s'. flipX M = Inr s' \<and> sameSize M s'"
    unfolding flipX_def
  proof (rule foldE_inv [where I = "sameSize M", OF _ s0])
    fix j s
    assume "j \<in> set (takeWhile (\<lambda>j. real_of_int j < real_of_int (cols M) / 2) [0..cols M - 1])"
      and s: "sameSize M s"
    then have "j \<in> set [0..cols M - 1]" by (auto dest: set_takeWhileD)
    then have "0 \<le> j" "j < cols M" "0 \<le> cols M - j - 1" "cols M - j - 1 < cols M" by auto
    from swapCol_ok [OF s this] show "\<exists>s'. swapCol s j (cols M - j - 1) = Inr s' \<and> sameSize M s'" .
  qed
  then obtain s1 where s1: "flipX M = Inr s1" "sameSize M s1" by blast
  have "\<exists>s'. flipY s1 = Inr s' \<and> sameSize M s'"
    unfolding flipY_def
  proof (rule foldE_inv [where I = "sameSize M", OF _ s1(2)])
    fix i s
    assume "i \<in> set (takeWhile (\<lambda>i. real_of_int i < real_of_int (rows s1) / 2) [0..rows s1 - 1])"
      and s: "sameSize M s"
    then have "i \<in> set [0..rows s1 - 1]" by (auto dest: set_takeWhileD)
    then have "0 \<le> i" "i < rows M" "0 \<le> rows M - i - 1" "rows M - i - 1 < rows M"
      using s1(2) by (auto simp add: sameSize_def)
    from swapRow_ok [OF s this] s1(2)
    show "\<exists>s'. swapRow s i (rows s1 - i - 1) = Inr s' \<and> sameSize M s'"
      by (simp add: sameSize_def)
  qed
  then show ?thesis using s1(1) by (simp add: flipXY_def bnd_Inr)
qed

lemma fillAlpha_fails:
  assumes "chls M < 4" "1 \<le> rows M" "1 \<le> cols M"
  shows "fillAlpha a M = Inl RangeError"
proof -
  have "[0..rows M - 1] = 0 # [1..rows M - 1]" "[0..cols M - 1] = 0 # [1..cols M - 1]"
    using assms(2,3) by (simp_all add: upto_rec1)
  moreover have "set3 M 0 0 a 3 = Inl RangeError"
    using assms(1) by (simp add: set3_def)
  ultimately show ?thesis
    by (simp add: fillAlpha_def applyM_def bnd_Inl)
qed

lemma zeros_int:
  assumes "1 \<le> r" "r \<le> 2 ^ 32 - 1" "1 \<le> c" "c \<le> 2 ^ 32 - 1" "1 \<le> ch" "ch \<le> 2 ^ 32 - 1"
  shows "zeros (of_int r) (of_int c) (of_int ch) =
     Inr \<lparr>m = replicate (nat r) (replicate (nat c)
              (if 1 < ch then Arr (replicate (nat ch) (Fin 0)) else Num (Fin 0))),
          rows = r, cols = c, chls = ch\<rparr>"
  unfolding zeros_def using generate_int [of r c ch "Some (Fin 0)"] assms by simp

text \<open>
  Claim C2, as the code has it. Let the image satisfy the shape invariant, have at least
  one pixel and fewer than 4 channels, and let the kernel satisfy the shape invariant.
  Then \<open>convolution\<close> never returns a result. A kernel with an even number of rows or
  columns, or one whose channel count (after a single-channel kernel is extruded to the
  image's count) differs from the image's, is refused first, with the ConvolutionError
  of the checks; every other kernel gets as far as \<open>zeros(...).fillAlpha(1)\<close>, which
  throws a RangeError at channel index 3.
\<close>

theorem convolution_needs_alpha:
  assumes "wfMatrix A" "chls A < 4" "1 \<le> rows A" "1 \<le> cols A" "wfMatrix w"
  shows "convolution A w =
     (if rows w mod 2 = 0 \<or> cols w mod 2 = 0 then Inl ConvolutionError
      else if (if chls w = 1 \<and> 1 < chls A then chls A else chls w) \<noteq> chls A
      then Inl ConvolutionError
      else Inl RangeError)"
proof (cases "rows w mod 2 = 0 \<or> cols w mod 2 = 0")
  case True
  then show ?thesis by (simp add: convolution_def)
next
  case odd: False
  have "\<exists>w1. (if chls w = 1 \<and> chls A > 1 then extrude w (chls A) else Inr w) = Inr w1 \<and>
      wfMatrix w1 \<and> chls w1 = (if chls w = 1 \<and> 1 < chls A then chls A else chls w)"
  proof (cases "chls w = 1 \<and> 1 < chls A")
    case True
    then show ?thesis
      using extrude_result [OF assms(5), of "chls A"] assms(2) by auto
  next
    case False
    then show ?thesis using assms(5) by auto
  qed
  then obtain w1 where w1:
    "(if chls w = 1 \<and> chls A > 1 then extrude w (chls A) else Inr w) = Inr w1"
    "wfMatrix w1" "chls w1 = (if chls w = 1 \<and> 1 < chls A then chls A else chls w)"
    by blast
  show ?thesis
  proof (cases "chls w1 = chls A")
    case False
    then show ?thesis
      using odd w1(1,3) assms(2) by (simp add: convolution_def bnd_Inr)
  next
    case True
    from flipXY_ok [OF wfMatrix_shaped [OF w1(2)]]
    obtain w2 where w2: "flipXY w1 = Inr w2" by blast
    have b: "rows A \<le> 2 ^ 32 - 1" "cols A \<le> 2 ^ 32 - 1" "1 \<le> chls A" "chls A \<le> 2 ^ 32 - 1"
      using assms(1) by (simp_all add: wfMatrix_def)
    have "bnd (zeros (of_int (rows A)) (of_int (cols A)) (of_int (chls A))) (fillAlpha (Fin 1)) =
        Inl RangeError"
      using assms(2-4)
      by (simp add: zeros_int [OF assms(3) b(1) assms(4) b(2,3,4)] bnd_Inr fillAlpha_fails)
    then show ?thesis
      using odd True w1(1,3) w2 by (simp add: convolution_def bnd_Inr bnd_Inl)
  qed
qed

text \<open>
  An instance of the theorem: a 1 x 1 image of 3 channels and the 3 x 3 identity kernel
  satisfy its hypotheses, and the call ends in a RangeError.
\<close>

theorem convolution_needs_alpha_witness:
  "wfMatrix \<lparr>m = [[Arr [Fin (1/2), Fin (1/4), Fin 1]]], rows = 1, cols = 1, chls = 3\<rparr> \<and>
   wfMatrix \<lparr>m = [[Num (Fin 0), Num (Fin 0), Num (Fin 0)],
                  [Num (Fin 0), Num (Fin 1), Num (Fin 0)],
                  [Num (Fin 0), Num (Fin 0), Num (Fin 0)]], rows = 3, cols = 3, chls = 1\<rparr> \<and>
   convolution \<lparr>m = [[Arr [Fin (1/2), Fin (1/4), Fin 1]]], rows = 1, cols = 1, chls = 3\<rparr>
     \<lparr>m = [[Num (Fin 0), Num (Fin 0), Num (Fin 0)],
           [Num (Fin 0), Num (Fin 1), Num (Fin 0)],
           [Num (Fin 0), Num (Fin 0), Num (Fin 0)]], rows = 3, cols = 3, chls = 1\<rparr> =
     Inl RangeError"
proof -
  have a: "wfMatrix \<lparr>m = [[Arr [Fin (1/2), Fin (1/4), Fin 1]]], rows = 1, cols = 1, chls = 3\<rparr>"
    by (simp add: wfMatrix_def wfCell_def)
  have k: "wfMatrix \<lparr>m = [[Num (Fin 0), Num (Fin 0), Num (Fin 0)],
                  [Num (Fin 0), Num (Fin 1), Num (Fin 0)],
                  [Num (Fin 0), Num (Fin 0), Num (Fin 0)]], rows = 3, cols = 3, chls = 1\<rparr>"
    by (simp add: wfMatrix_def wfCell_def)
  from convolution_needs_alpha [OF a _ _ _ k] a k show ?thesis by simp
qed

text \<open>
  Claim C2 as the specification states it fails: it promises a RangeError for any kernel.
  For a 1 x 1 image of 3 channels and a 2 x 2 kernel the call is refused by the first
  check of \<open>convolution\<close>, which throws the ConvolutionError, before the accumulator is
  ever created.
\<close>

theorem convolution_even_kernel_counterexample:
  "convolution \<lparr>m = [[Arr [Fin (1/2), Fin (1/4), Fin 1]]], rows = 1, cols = 1, chls = 3\<rparr>
     \<lparr>m = [[Num (Fin 1), Num (Fin 1)], [Num (Fin 1), Num (Fin 1)]],
      rows = 2, cols = 2, chls = 1\<rparr> = Inl ConvolutionError"
  by (simp add: convolution_def)

text \<open>
  The last part of claim C2, that only images of 4 channels get through, does not hold
  either: on a 1 x 1 image of 5 channels the identity kernel is extruded to 5 channels and
  the call returns, with the three colour values kept, channel 3 set to 1 and channel 4,
  which the accumulation never visits, left at the 0 of the accumulator.
\<close>

lemma convolution_five_channels:
  "map_sum id fst (convolution
     \<lparr>m = [[Arr [Fin (1/2), Fin (1/4), Fin 1, Fin 0, Fin 7]]], rows = 1, cols = 1, chls = 5\<rparr>
     \<lparr>m = [[Num (Fin 0), Num (Fin 0), Num (Fin 0)],
           [Num (Fin 0), Num (Fin 1), Num (Fin 0)],
           [Num (Fin 0), Num (Fin 0), Num (Fin 0)]], rows = 3, cols = 3, chls = 1\<rparr>) =
   Inr \<lparr>m = [[Arr [Fin (1/2), Fin (1/4), Fin 1, Fin 1, Fin 0]]], rows = 1, cols = 1, chls = 5\<rparr>"
  by code_simp

subsection \<open>The identity kernel\<close>

lemma upto_0_2: "[0..2] = [0, 1, 2 :: int]"
  by (simp add: upto_rec1)

lemma Kernel_identity_load:
  "Kernel_identity =
     Inr \<lparr>m = [[Num (Fin 0), Num (Fin 0), Num (Fin 0)],
               [Num (Fin 0), Num (Fin 1), Num (Fin 0)],
               [Num (Fin 0), Num (Fin 0), Num (Fin 0)]], rows = 3, cols = 3, chls = 1\<rparr>"
  by (simp add: Kernel_identity_def load_def)

lemma extrude_identity:
  assumes "1 < ch" "ch \<le> 2 ^ 32 - 1"
  shows "extrude \<lparr>m = [[Num (Fin 0), Num (Fin 0), Num (Fin 0)],
               [Num (Fin 0), Num (Fin 1), Num (Fin 0)],
               [Num (Fin 0), Num (Fin 0), Num (Fin 0)]], rows = 3, cols = 3, chls = 1\<rparr> ch =
     Inr (identityOn ch)"
  using assms
  by (simp add: extrude_def applyM_def upto_0_2 bnd_Inr get2_def set2_def cellAt_def rowAt_def
      putCell_def Array_new_of_int identityOn_def)

lemma flipXY_identity: "flipXY (identityOn ch) = Inr (identityOn ch)"
  by (simp add: flipXY_def flipX_def flipY_def swapCol_def swapRow_def upto_0_2 bnd_Inr
      cellAt_def rowAt_def putCell_def identityOn_def)

lemma get3_identity:
  assumes "wi \<in> {0, 1, 2}" "wj \<in> {0, 1, 2}" "0 \<le> k" "k < ch"
  shows "get3 (identityOn ch) wi wj k = Inr (Fin (if wi = 1 \<and> wj = 1 then 1 else 0))"
  using assms by (auto simp add: get3_def cellAt_def rowAt_def identityOn_def)

lemma cellAt_replicate:
  assumes "0 \<le> i" "i < r" "0 \<le> j" "j < c"
  shows "cellAt \<lparr>m = replicate (nat r) (replicate (nat c) x), rows = r, cols = c, chls = ch\<rparr> i j =
     Some x"
  using assms by (simp add: cellAt_def rowAt_def)

lemma accum_init:
  assumes "1 \<le> r" "r \<le> 2 ^ 32 - 1" "1 \<le> c" "c \<le> 2 ^ 32 - 1" "4 \<le> ch" "ch \<le> 2 ^ 32 - 1"
  shows "\<exists>s. bnd (zeros (of_int r) (of_int c) (of_int ch)) (fillAlpha (Fin 1)) = Inr s \<and>
     shaped s \<and> rows s = r \<and> cols s = c \<and> chls s = ch \<and>
     (\<forall>i j. inRange s i j \<longrightarrow>
        cellAt s i j = Some (Arr ((replicate (nat ch) (Fin 0))[3 := Fin 1])))"
proof -
  let ?Z = "\<lparr>m = replicate (nat r) (replicate (nat c) (Arr (replicate (nat ch) (Fin 0)))),
          rows = r, cols = c, chls = ch\<rparr>"
  have z: "zeros (of_int r) (of_int c) (of_int ch) = Inr ?Z"
    using zeros_int [of r c ch] assms by simp
  have sh: "shaped ?Z" using assms by (simp add: shaped_replicate)
  have "\<exists>s'. applyM ?Z (\<lambda>i j s. set3 s i j (Fin 1) 3) ?Z = Inr s' \<and> shaped s' \<and>
      rows s' = rows ?Z \<and> cols s' = cols ?Z \<and> chls s' = chls ?Z \<and>
      (\<forall>i j. cellAt s' i j =
         (if inRange ?Z i j then Some (Arr ((replicate (nat ch) (Fin 0))[3 := Fin 1]))
          else cellAt ?Z i j))"
  proof (rule applyM_cells0 [OF sh])
    fix i j s
    assume r: "inRange ?Z i j" and e: "rows s = rows ?Z" "cols s = cols ?Z" "chls s = chls ?Z"
      "cellAt s i j = cellAt ?Z i j"
    have c: "cellAt s i j = Some (Arr (replicate (nat ch) (Fin 0)))"
      using r e(4) by (simp add: inRange_def cellAt_replicate)
    have "inRange s i j" using r e by (simp add: inRange_def)
    from set3_cell [OF this _ _ c, of 3 "Fin 1"] e(3) assms(5)
    show "set3 s i j (Fin 1) 3 = Inr (putCell s i j (Arr ((replicate (nat ch) (Fin 0))[3 := Fin 1])))"
      by simp
  qed simp
  then obtain s' where s': "applyM ?Z (\<lambda>i j s. set3 s i j (Fin 1) 3) ?Z = Inr s'" "shaped s'"
    "rows s' = r" "cols s' = c" "chls s' = ch"
    "\<And>i j. cellAt s' i j =
         (if inRange ?Z i j then Some (Arr ((replicate (nat ch) (Fin 0))[3 := Fin 1]))
          else cellAt ?Z i j)"
    by auto
  have "inRange s' i j \<Longrightarrow> inRange ?Z i j" for i j
    using s'(3,4) by (simp add: inRange_def)
  then show ?thesis
    using s' by (simp add: z bnd_Inr fillAlpha_def)
qed

lemma pad_copy:
  assumes wf: "wfMatrix A" and ch: "1 < chls A" and r: "1 \<le> rows A" "rows A + 2 \<le> 2 ^ 32 - 1"
    and c: "1 \<le> cols A" "cols A + 2 \<le> 2 ^ 32 - 1"
  shows "\<exists>p. bnd (zeros (of_int (rows A + 2)) (of_int (cols A + 2)) (of_int (chls A)))
               (\<lambda>pad. copy A pad 1 1) = Inr p \<and>
     (\<forall>i j k. 0 \<le> i \<and> i < rows A + 2 \<and> 0 \<le> j \<and> j < cols A + 2 \<and> 0 \<le> k \<and> k < chls A \<longrightarrow>
        get3 p i j k =
          Inr (if inRange A (i - 1) (j - 1) then px A (i - 1) (j - 1) ! nat k else Fin 0))"
proof -
  let ?Z = "\<lparr>m = replicate (nat (rows A + 2)) (replicate (nat (cols A + 2))
               (Arr (replicate (nat (chls A)) (Fin 0)))),
          rows = rows A + 2, cols = cols A + 2, chls = chls A\<rparr>"
  have chb: "chls A \<le> 2 ^ 32 - 1" using wf by (simp add: wfMatrix_def)
  have z: "zeros (of_int (rows A + 2)) (of_int (cols A + 2)) (of_int (chls A)) = Inr ?Z"
    using zeros_int [of "rows A + 2" "cols A + 2" "chls A"] r c ch chb by simp
  have sh: "shaped ?Z" using r c by (simp add: shaped_replicate)
  have "\<exists>s'. applyM A (\<lambda>i j t. bnd (get2 A i j) (\<lambda>c. set2 t (i + 1) (j + 1) c)) ?Z = Inr s' \<and>
      shaped s' \<and> rows s' = rows ?Z \<and> cols s' = cols ?Z \<and> chls s' = chls ?Z \<and>
      (\<forall>i j. cellAt s' i j =
         (if inRange A (i - 1) (j - 1) then Some (Arr (px A (i - 1) (j - 1)))
          else cellAt ?Z i j))"
  proof (rule applyM_cells [OF sh])
    fix i j
    assume "inRange A i j"
    then show "inRange ?Z (i + 1) (j + 1)" by (simp add: inRange_def)
  next
    fix i j s
    assume a: "inRange A i j" and e: "rows s = rows ?Z" "cols s = cols ?Z"
      "cellAt s (i + 1) (j + 1) = cellAt ?Z (i + 1) (j + 1)"
    have g: "get2 A i j = Inr (Arr (px A i j))"
      by (rule get2_cell [OF a wf_px(1) [OF wf ch a]])
    have t: "inRange s (i + 1) (j + 1)" using a e by (simp add: inRange_def)
    have "cellAt s (i + 1) (j + 1) = Some (Arr (replicate (nat (chls A)) (Fin 0)))"
      using a e(3) by (simp add: inRange_def cellAt_replicate)
    from set2_cell [OF t this]
    show "bnd (get2 A i j) (\<lambda>c. set2 s (i + 1) (j + 1) c) =
        Inr (putCell s (i + 1) (j + 1) (Arr (px A i j)))"
      by (simp add: g bnd_Inr)
  qed
  then obtain p where p: "copy A ?Z 1 1 = Inr p" "shaped p" "rows p = rows A + 2"
    "cols p = cols A + 2" "chls p = chls A"
    "\<And>i j. cellAt p i j =
         (if inRange A (i - 1) (j - 1) then Some (Arr (px A (i - 1) (j - 1)))
          else cellAt ?Z i j)"
    unfolding copy_def by auto
  have "get3 p i j k =
          Inr (if inRange A (i - 1) (j - 1) then px A (i - 1) (j - 1) ! nat k else Fin 0)"
    if b: "0 \<le> i" "i < rows A + 2" "0 \<le> j" "j < cols A + 2" "0 \<le> k" "k < chls A" for i j k
  proof (cases "inRange A (i - 1) (j - 1)")
    case True
    have "nat k < length (px A (i - 1) (j - 1))"
      using wf_px(2) [OF wf ch True] b(5,6) by linarith
    then show ?thesis
      using True b p(3,4,5) p(6) [of i j] by (simp add: get3_def)
  next
    case False
    have "cellAt p i j = Some (Arr (replicate (nat (chls A)) (Fin 0)))"
      using False b p(6) [of i j] by (simp add: cellAt_replicate)
    then show ?thesis
      using False b p(3,4,5) by (simp add: get3_def)
  qed
  moreover have "bnd (zeros (of_int (rows A + 2)) (of_int (cols A + 2)) (of_int (chls A)))
               (\<lambda>pad. copy A pad 1 1) = Inr p"
    using p(1) by (simp only: z bnd_Inr)
  ultimately show ?thesis by blast
qed

lemma putCell_same: "cellAt s i j = Some c \<Longrightarrow> putCell s i j c = s"
  using cellAt_SomeD [of s i j c] by (simp add: putCell_def)

text \<open>
  The two innermost loops of \<open>convolution\<close>, over the window of the kernel, at one cell
  and one channel of the accumulator: when the values read are finite numbers, the
  channel grows by the sum of the products.
\<close>

lemma window_loop:
  assumes s0: "inRange s0 i j" "cellAt s0 i j = Some c0" "0 \<le> k" "k < chls s0"
    and q: "\<And>q. q \<in> set qs \<Longrightarrow>
      get3 pad (i + fst q) (j + snd q) k = Inr (Fin (P q)) \<and>
      get3 w (fst q) (snd q) k = Inr (Fin (W q))"
    and ys: "nat k < length ys" "ys ! nat k = Fin a"
  shows "foldE (\<lambda>q acc.
            bnd (get3 acc i j k) (\<lambda>a. bnd (get3 pad (i + fst q) (j + snd q) k) (\<lambda>p.
            bnd (get3 w (fst q) (snd q) k) (\<lambda>wv. set3 acc i j (jadd a (jmul p wv)) k))))
          qs (putCell s0 i j (Arr ys)) =
     Inr (putCell s0 i j (Arr (ys[nat k := Fin (a + (\<Sum>q\<leftarrow>qs. P q * W q))])))"
  using q ys
proof (induction qs arbitrary: ys a)
  case Nil
  then show ?case by (simp add: list_update_same_conv [THEN iffD2])
next
  case (Cons q qs)
  have g: "get3 (putCell s0 i j (Arr ys)) i j k = Inr (Fin a)"
    using get3_putCell [OF s0 Cons.prems(2)] Cons.prems(3) by simp
  have r: "get3 pad (i + fst q) (j + snd q) k = Inr (Fin (P q))"
    "get3 w (fst q) (snd q) k = Inr (Fin (W q))"
    using Cons.prems(1) [of q] by simp_all
  let ?ys = "ys[nat k := Fin (a + P q * W q)]"
  have st: "set3 (putCell s0 i j (Arr ys)) i j (Fin (a + P q * W q)) k =
      Inr (putCell s0 i j (Arr ?ys))"
    by (rule set3_putCell [OF s0 Cons.prems(2)])
  have "foldE (\<lambda>q acc.
            bnd (get3 acc i j k) (\<lambda>a. bnd (get3 pad (i + fst q) (j + snd q) k) (\<lambda>p.
            bnd (get3 w (fst q) (snd q) k) (\<lambda>wv. set3 acc i j (jadd a (jmul p wv)) k))))
          qs (putCell s0 i j (Arr ?ys)) =
     Inr (putCell s0 i j (Arr (?ys[nat k := Fin (a + P q * W q + (\<Sum>q\<leftarrow>qs. P q * W q))])))"
    by (rule Cons.IH) (use Cons.prems in simp_all)
  then show ?case
    by (simp add: g r st bnd_Inr add.assoc)
qed

lemma cellsOf_identityOn:
  "cellsOf (identityOn ch) =
     [(0, 0), (0, 1), (0, 2), (1, 0), (1, 1), (1, 2), (2, 0), (2, 1), (2, 2)]"
  by (simp add: cellsOf_def identityOn_def upto_0_2)

lemma identity_window:
  assumes s0: "inRange s0 i j" "cellAt s0 i j = Some c0" "0 \<le> k" "k < chls s0" "k < ch"
    and p: "\<And>wi wj. wi \<in> {0, 1, 2} \<Longrightarrow> wj \<in> {0, 1, 2} \<Longrightarrow>
      get3 pad (i + wi) (j + wj) k = Inr (Fin (P wi wj))"
    and ys: "nat k < length ys" "ys ! nat k = Fin a"
  shows "foldE (\<lambda>wi. foldE (\<lambda>wj acc.
            bnd (get3 acc i j k) (\<lambda>a. bnd (get3 pad (i + wi) (j + wj) k) (\<lambda>p.
            bnd (get3 (identityOn ch) wi wj k) (\<lambda>wv. set3 acc i j (jadd a (jmul p wv)) k))))
          [0..cols (identityOn ch) - 1]) [0..rows (identityOn ch) - 1]
          (putCell s0 i j (Arr ys)) =
     Inr (putCell s0 i j (Arr (ys[nat k := Fin (a + P 1 1)])))"
proof -
  let ?W = "\<lambda>q :: int \<times> int. if fst q = 1 \<and> snd q = 1 then 1 else 0 :: real"
  have "foldE (\<lambda>q acc.
            bnd (get3 acc i j k) (\<lambda>a. bnd (get3 pad (i + fst q) (j + snd q) k) (\<lambda>p.
            bnd (get3 (identityOn ch) (fst q) (snd q) k)
              (\<lambda>wv. set3 acc i j (jadd a (jmul p wv)) k))))
          (cellsOf (identityOn ch)) (putCell s0 i j (Arr ys)) =
     Inr (putCell s0 i j (Arr (ys[nat k := Fin (a +
       (\<Sum>q\<leftarrow>cellsOf (identityOn ch). P (fst q) (snd q) * ?W q))])))"
  proof (rule window_loop [OF s0(1-4) _ ys])
    fix q
    assume "q \<in> set (cellsOf (identityOn ch))"
    then have "fst q \<in> {0, 1, 2}" "snd q \<in> {0, 1, 2}"
      by (auto simp add: cellsOf_identityOn)
    then show "get3 pad (i + fst q) (j + snd q) k = Inr (Fin (P (fst q) (snd q))) \<and>
      get3 (identityOn ch) (fst q) (snd q) k = Inr (Fin (?W q))"
      using p get3_identity [of "fst q" "snd q" k ch] s0(3,5) by simp
  qed
  moreover have "(\<Sum>q\<leftarrow>cellsOf (identityOn ch). P (fst q) (snd q) * ?W q) = P 1 1"
    by (simp add: cellsOf_identityOn)
  ultimately show ?thesis
    using applyM_flat [of "identityOn ch" "\<lambda>wi wj acc.
            bnd (get3 acc i j k) (\<lambda>a. bnd (get3 pad (i + wi) (j + wj) k) (\<lambda>p.
            bnd (get3 (identityOn ch) wi wj k) (\<lambda>wv. set3 acc i j (jadd a (jmul p wv)) k)))"
          "putCell s0 i j (Arr ys)"]
    by (simp add: applyM_def)
qed

text \<open>
  The loops over the three colour channels and the window, at one cell of the
  accumulator whose colour channels are still 0.
\<close>

lemma identity_cell:
  assumes s: "inRange s i j" "cellAt s i j = Some (Arr xs)" "chls s = ch" "4 \<le> ch"
      "length xs = nat ch"
    and z: "xs ! 0 = Fin 0" "xs ! 1 = Fin 0" "xs ! 2 = Fin 0"
    and p: "\<And>wi wj k. wi \<in> {0, 1, 2} \<Longrightarrow> wj \<in> {0, 1, 2} \<Longrightarrow> k \<in> {0, 1, 2} \<Longrightarrow>
      get3 pad (i + wi) (j + wj) k = Inr (Fin (P wi wj k))"
  shows "foldE (\<lambda>k. foldE (\<lambda>wi. foldE (\<lambda>wj acc.
            bnd (get3 acc i j k) (\<lambda>a. bnd (get3 pad (i + wi) (j + wj) k) (\<lambda>p.
            bnd (get3 (identityOn ch) wi wj k) (\<lambda>wv. set3 acc i j (jadd a (jmul p wv)) k))))
          [0..cols (identityOn ch) - 1]) [0..rows (identityOn ch) - 1]) [0, 1, 2] s =
     Inr (putCell s i j (Arr (xs[0 := Fin (P 1 1 0), 1 := Fin (P 1 1 1), 2 := Fin (P 1 1 2)])))"
proof -
  note w = identity_window [OF s(1,2), where pad = pad and ch = ch]
  have l: "0 < length xs" "1 < length xs" "2 < length xs" using s(4,5) by simp_all
  have e: "putCell s i j (Arr xs) = s" by (rule putCell_same [OF s(2)])
  show ?thesis
  proof (rule foldE_three)
    show "foldE (\<lambda>wi. foldE (\<lambda>wj acc.
            bnd (get3 acc i j 0) (\<lambda>a. bnd (get3 pad (i + wi) (j + wj) 0) (\<lambda>p.
            bnd (get3 (identityOn ch) wi wj 0) (\<lambda>wv. set3 acc i j (jadd a (jmul p wv)) 0))))
          [0..cols (identityOn ch) - 1]) [0..rows (identityOn ch) - 1] s =
        Inr (putCell s i j (Arr (xs[0 := Fin (P 1 1 0)])))"
      using w [of 0 "\<lambda>wi wj. P wi wj 0" xs 0] s(3,4) l z p by (simp add: e)
    show "foldE (\<lambda>wi. foldE (\<lambda>wj acc.
            bnd (get3 acc i j 1) (\<lambda>a. bnd (get3 pad (i + wi) (j + wj) 1) (\<lambda>p.
            bnd (get3 (identityOn ch) wi wj 1) (\<lambda>wv. set3 acc i j (jadd a (jmul p wv)) 1))))
          [0..cols (identityOn ch) - 1]) [0..rows (identityOn ch) - 1]
          (putCell s i j (Arr (xs[0 := Fin (P 1 1 0)]))) =
        Inr (putCell s i j (Arr (xs[0 := Fin (P 1 1 0), 1 := Fin (P 1 1 1)])))"
      using w [of 1 "\<lambda>wi wj. P wi wj 1" "xs[0 := Fin (P 1 1 0)]" 0] s(3,4) l z p by simp
    show "foldE (\<lambda>wi. foldE (\<lambda>wj acc.
            bnd (get3 acc i j 2) (\<lambda>a. bnd (get3 pad (i + wi) (j + wj) 2) (\<lambda>p.
            bnd (get3 (identityOn ch) wi wj 2) (\<lambda>wv. set3 acc i j (jadd a (jmul p wv)) 2))))
          [0..cols (identityOn ch) - 1]) [0..rows (identityOn ch) - 1]
          (putCell s i j (Arr (xs[0 := Fin (P 1 1 0), 1 := Fin (P 1 1 1)]))) =
        Inr (putCell s i j (Arr (xs[0 := Fin (P 1 1 0), 1 := Fin (P 1 1 1), 2 := Fin (P 1 1 2)])))"
      using w [of 2 "\<lambda>wi wj. P wi wj 2" "xs[0 := Fin (P 1 1 0), 1 := Fin (P 1 1 1)]" 0]
        s(3,4) l z p by simp
  qed
qed

text \<open>The loop of \<open>normalize\<close> over the channels of one cell clips every entry.\<close>

lemma normalize_cell:
  assumes s0: "inRange s0 i j" "cellAt s0 i j = Some c0" and n: "int n \<le> chls s0" "n \<le> length ys"
  shows "foldE (\<lambda>k s. bnd (get3 s i j k) (\<lambda>v. set3 s i j (clip v (Fin 0) (Fin 1)) k))
           [0..int n - 1] (putCell s0 i j (Arr ys)) =
     Inr (putCell s0 i j (Arr (map (\<lambda>v. clip v (Fin 0) (Fin 1)) (take n ys) @ drop n ys)))"
  using n
proof (induction n)
  case 0
  show ?case by simp
next
  case (Suc n)
  let ?f = "\<lambda>v. clip v (Fin 0) (Fin 1)"
  let ?zs = "map ?f (take n ys) @ drop n ys"
  have n: "n < length ys" "int n < chls s0" using Suc.prems by simp_all
  have zn: "?zs ! n = ys ! n" "nat (int n) < length ?zs"
    using n(1) by (simp_all add: nth_append)
  have g: "get3 (putCell s0 i j (Arr ?zs)) i j (int n) = Inr (ys ! n)"
    using get3_putCell [OF s0 _ n(2) zn(2)] zn(1) by simp
  have st: "set3 (putCell s0 i j (Arr ?zs)) i j (?f (ys ! n)) (int n) =
      Inr (putCell s0 i j (Arr (?zs[n := ?f (ys ! n)])))"
    using set3_putCell [OF s0 _ n(2) zn(2)] by simp
  have u: "?zs[n := ?f (ys ! n)] = map ?f (take (Suc n) ys) @ drop (Suc n) ys"
    using n(1)
    by (simp add: take_Suc_conv_app_nth list_update_append Cons_nth_drop_Suc [symmetric])
  have "foldE (\<lambda>k s. bnd (get3 s i j k) (\<lambda>v. set3 s i j (?f v) k))
           [0..int n - 1] (putCell s0 i j (Arr ys)) = Inr (putCell s0 i j (Arr ?zs))"
    by (rule Suc.IH) (use Suc.prems in simp_all)
  then show ?case
    by (simp only: upto_snoc_nat foldE_append bnd_Inr foldE.simps g st u)
qed

lemma finiteColours_px:
  assumes wf: "wfMatrix A" and ch: "3 \<le> chls A" and f: "finiteColours A" and r: "inRange A i j"
    and k: "k < 3"
  shows "\<exists>v. px A i j ! k = Fin v"
proof -
  note sh = wfMatrix_shaped [OF wf]
  have c: "m A ! nat i ! nat j = Arr (px A i j)"
    using wf_px(1) [OF wf _ r] cellAt_inRange [OF sh r] ch by simp
  have i: "nat i < length (m A)"
    using r by (simp add: shaped_rows [OF sh] inRange_def)
  then have j: "nat j < length (m A ! nat i)"
    using r by (simp add: shaped_cols [OF sh] inRange_def)
  define Q where "Q = (\<lambda>c. case c of Num v \<Rightarrow> isFin v | Arr xs \<Rightarrow> list_all isFin (take 3 xs))"
  have "list_all (list_all Q) (m A)"
    using f by (simp add: finiteColours_def Q_def)
  then have "list_all Q (m A ! nat i)"
    using i by (simp add: list_all_length)
  then have "Q (m A ! nat i ! nat j)"
    using j by (simp add: list_all_length)
  then have "list_all isFin (take 3 (px A i j))"
    by (simp add: Q_def c)
  moreover have "k < length (take 3 (px A i j))"
    using wf_px(2) [OF wf _ r] ch k by simp
  ultimately have "isFin (take 3 (px A i j) ! k)"
    by (simp only: list_all_length)
  then have "isFin (px A i j ! k)" using k by simp
  then show ?thesis by (cases "px A i j ! k") simp_all
qed

lemma accumulate_identity:
  assumes acc: "shaped accum" "rows accum = rows A" "cols accum = cols A" "chls accum = chls A"
      "\<forall>i j. inRange accum i j \<longrightarrow>
         cellAt accum i j = Some (Arr ((replicate (nat (chls A)) (Fin 0))[3 := Fin 1]))"
    and wf: "wfMatrix A" "4 \<le> chls A" "finiteColours A"
    and pad: "\<forall>i j k. 0 \<le> i \<and> i < rows A + 2 \<and> 0 \<le> j \<and> j < cols A + 2 \<and> 0 \<le> k \<and> k < chls A \<longrightarrow>
        get3 pad i j k =
          Inr (if inRange A (i - 1) (j - 1) then px A (i - 1) (j - 1) ! nat k else Fin 0)"
  shows "\<exists>s'. applyM accum (\<lambda>i j. foldE (\<lambda>k. foldE (\<lambda>wi. foldE (\<lambda>wj acc.
            bnd (get3 acc i j k) (\<lambda>a. bnd (get3 pad (i + wi) (j + wj) k) (\<lambda>p.
            bnd (get3 (identityOn (chls A)) wi wj k)
              (\<lambda>wv. set3 acc i j (jadd a (jmul p wv)) k))))
          [0..cols (identityOn (chls A)) - 1]) [0..rows (identityOn (chls A)) - 1]) [0, 1, 2])
        accum = Inr s' \<and>
      shaped s' \<and> rows s' = rows A \<and> cols s' = cols A \<and> chls s' = chls A \<and>
      (\<forall>i j. inRange A i j \<longrightarrow>
         cellAt s' i j = Some (Arr ((replicate (nat (chls A)) (Fin 0))
           [3 := Fin 1, 0 := px A i j ! 0, 1 := px A i j ! 1, 2 := px A i j ! 2])))"
proof -
  let ?xs = "(replicate (nat (chls A)) (Fin 0))[3 := Fin 1]"
  let ?F = "\<lambda>i j. Arr (?xs[0 := px A i j ! 0, 1 := px A i j ! 1, 2 := px A i j ! 2])"
  define realOf where "realOf x = (case x of Fin v \<Rightarrow> v | _ \<Rightarrow> 0)" for x
  have fin: "Fin (realOf (px A i j ! k)) = px A i j ! k" if "inRange A i j" "k < 3" for i j k
    using finiteColours_px [OF wf(1) _ wf(3) that] wf(2) by (auto simp add: realOf_def)
  have "\<exists>s'. applyM accum (\<lambda>i j. foldE (\<lambda>k. foldE (\<lambda>wi. foldE (\<lambda>wj acc.
            bnd (get3 acc i j k) (\<lambda>a. bnd (get3 pad (i + wi) (j + wj) k) (\<lambda>p.
            bnd (get3 (identityOn (chls A)) wi wj k)
              (\<lambda>wv. set3 acc i j (jadd a (jmul p wv)) k))))
          [0..cols (identityOn (chls A)) - 1]) [0..rows (identityOn (chls A)) - 1]) [0, 1, 2])
        accum = Inr s' \<and>
      shaped s' \<and> rows s' = rows accum \<and> cols s' = cols accum \<and> chls s' = chls accum \<and>
      (\<forall>i j. cellAt s' i j = (if inRange accum i j then Some (?F i j) else cellAt accum i j))"
  proof (rule applyM_cells0 [OF acc(1)])
    fix i j s
    assume r: "inRange accum i j" and e: "rows s = rows accum" "cols s = cols accum"
      "chls s = chls accum" "cellAt s i j = cellAt accum i j"
    have rA: "inRange A i j" using r acc(2,3) by (simp add: inRange_def)
    have rs: "inRange s i j" using r e(1,2) by (simp add: inRange_def)
    have c: "cellAt s i j = Some (Arr ?xs)" using acc(5) r e(4) by simp
    define P where "P wi wj k = realOf (if inRange A (i + wi - 1) (j + wj - 1)
        then px A (i + wi - 1) (j + wj - 1) ! nat k else Fin 0)" for wi wj k :: int
    have p: "get3 pad (i + wi) (j + wj) k = Inr (Fin (P wi wj k))"
      if "wi \<in> {0, 1, 2}" "wj \<in> {0, 1, 2}" "k \<in> {0, 1, 2}" for wi wj k
    proof -
      have b: "0 \<le> i + wi \<and> i + wi < rows A + 2 \<and> 0 \<le> j + wj \<and> j + wj < cols A + 2 \<and>
          0 \<le> k \<and> k < chls A"
        using that rA wf(2) by (auto simp add: inRange_def)
      have k: "nat k < 3" using that(3) by auto
      show ?thesis
      proof (cases "inRange A (i + wi - 1) (j + wj - 1)")
        case True
        then show ?thesis
          using pad b fin [OF True k] by (simp add: P_def)
      next
        case False
        then show ?thesis
          using pad b by (simp add: P_def realOf_def)
      qed
    qed
    have z: "?xs ! 0 = Fin 0" "?xs ! 1 = Fin 0" "?xs ! 2 = Fin 0" "length ?xs = nat (chls A)"
      using wf(2) by simp_all
    have P1: "Fin (P 1 1 k) = px A i j ! nat k" if "k \<in> {0, 1, 2}" for k
    proof -
      have "nat k < 3" using that by auto
      from fin [OF rA this] rA show ?thesis by (simp add: P_def)
    qed
    from identity_cell [of s i j ?xs "chls A" pad P, OF rs c _ wf(2) z(4) z(1-3) p]
    show "foldE (\<lambda>k. foldE (\<lambda>wi. foldE (\<lambda>wj acc.
            bnd (get3 acc i j k) (\<lambda>a. bnd (get3 pad (i + wi) (j + wj) k) (\<lambda>p.
            bnd (get3 (identityOn (chls A)) wi wj k)
              (\<lambda>wv. set3 acc i j (jadd a (jmul p wv)) k))))
          [0..cols (identityOn (chls A)) - 1]) [0..rows (identityOn (chls A)) - 1]) [0, 1, 2] s =
        Inr (putCell s i j (?F i j))"
      using e(3) acc(4) P1 [of 0] P1 [of 1] P1 [of 2] by simp
  qed simp
  then obtain s' where "applyM accum (\<lambda>i j. foldE (\<lambda>k. foldE (\<lambda>wi. foldE (\<lambda>wj acc.
            bnd (get3 acc i j k) (\<lambda>a. bnd (get3 pad (i + wi) (j + wj) k) (\<lambda>p.
            bnd (get3 (identityOn (chls A)) wi wj k)
              (\<lambda>wv. set3 acc i j (jadd a (jmul p wv)) k))))
          [0..cols (identityOn (chls A)) - 1]) [0..rows (identityOn (chls A)) - 1]) [0, 1, 2])
        accum = Inr s'" "shaped s'" "rows s' = rows accum" "cols s' = cols accum"
      "chls s' = chls accum"
      "\<And>i j. cellAt s' i j = (if inRange accum i j then Some (?F i j) else cellAt accum i j)"
    by blast
  moreover have "inRange A i j \<Longrightarrow> inRange accum i j" for i j
    using acc(2,3) by (simp add: inRange_def)
  ultimately show ?thesis using acc(2-4) by auto
qed

lemma normalizeM_cells:
  assumes sh: "shaped M" and ch: "1 < chls M"
    and cells: "\<And>i j. inRange M i j \<Longrightarrow> cellAt M i j = Some (Arr (X i j)) \<and>
      int (length (X i j)) = chls M"
  shows "\<exists>s'. normalizeM M = Inr s' \<and> shaped s' \<and> rows s' = rows M \<and> cols s' = cols M \<and>
      chls s' = chls M \<and>
      (\<forall>i j. inRange M i j \<longrightarrow>
         cellAt s' i j = Some (Arr (map (\<lambda>v. clip v (Fin 0) (Fin 1)) (X i j))))"
proof -
  let ?F = "\<lambda>i j. Arr (map (\<lambda>v. clip v (Fin 0) (Fin 1)) (X i j))"
  have "\<exists>s'. applyM M (\<lambda>i j. foldE (\<lambda>k s. bnd (get3 s i j k)
          (\<lambda>v. set3 s i j (clip v (Fin 0) (Fin 1)) k)) [0..chls M - 1]) M = Inr s' \<and>
      shaped s' \<and> rows s' = rows M \<and> cols s' = cols M \<and> chls s' = chls M \<and>
      (\<forall>i j. cellAt s' i j = (if inRange M i j then Some (?F i j) else cellAt M i j))"
  proof (rule applyM_cells0 [OF sh])
    fix i j s
    assume r: "inRange M i j" and e: "rows s = rows M" "cols s = cols M"
      "chls s = chls M" "cellAt s i j = cellAt M i j"
    have rs: "inRange s i j" using r e(1,2) by (simp add: inRange_def)
    have c: "cellAt s i j = Some (Arr (X i j))" "int (length (X i j)) = chls M"
      using cells [OF r] e(4) by simp_all
    have n: "int (nat (chls M)) \<le> chls s" "nat (chls M) \<le> length (X i j)"
      using c(2) e(3) ch by simp_all
    from normalize_cell [OF rs c(1) n] c(2) ch
    show "foldE (\<lambda>k s. bnd (get3 s i j k) (\<lambda>v. set3 s i j (clip v (Fin 0) (Fin 1)) k))
        [0..chls M - 1] s = Inr (putCell s i j (?F i j))"
      by (simp add: putCell_same [OF c(1)])
  qed simp
  moreover have "normalizeM M = applyM M (\<lambda>i j. foldE (\<lambda>k s. bnd (get3 s i j k)
          (\<lambda>v. set3 s i j (clip v (Fin 0) (Fin 1)) k)) [0..chls M - 1]) M"
    using ch by (simp add: normalizeM_def applyAll_def applyM_def)
  ultimately show ?thesis by auto
qed

lemma copy_onto:
  assumes sh: "shaped src" "shaped t" and e: "rows src = rows t" "cols src = cols t"
  shows "\<exists>s'. copy src t 0 0 = Inr s' \<and> shaped s' \<and> rows s' = rows t \<and> cols s' = cols t \<and>
      chls s' = chls t \<and> (\<forall>i j. inRange t i j \<longrightarrow> cellAt s' i j = cellAt src i j)"
proof -
  have io: "inRange src i j = inRange t i j" for i j
    using e by (simp add: inRange_def)
  have "\<exists>s'. applyM src (\<lambda>i j t. bnd (get2 src i j) (\<lambda>c. set2 t i j c)) t = Inr s' \<and>
      shaped s' \<and> rows s' = rows t \<and> cols s' = cols t \<and> chls s' = chls t \<and>
      (\<forall>i j. cellAt s' i j =
         (if inRange src i j then Some (m src ! nat i ! nat j) else cellAt t i j))"
  proof (rule applyM_cells0 [OF sh(2)])
    fix i j s
    assume r: "inRange src i j" and s: "rows s = rows t" "cols s = cols t"
      "cellAt s i j = cellAt t i j"
    have rs: "inRange s i j" using r e s(1,2) by (simp add: inRange_def)
    have c: "cellAt s i j = Some (m t ! nat i ! nat j)"
      using cellAt_inRange [OF sh(2)] r io s(3) by simp
    show "bnd (get2 src i j) (\<lambda>c. set2 s i j c) = Inr (putCell s i j (m src ! nat i ! nat j))"
      using get2_cell [OF r cellAt_inRange [OF sh(1) r]] set2_cell [OF rs c]
      by (simp add: bnd_Inr)
  qed (simp add: io)
  then show ?thesis
    using cellAt_inRange [OF sh(1)] by (auto simp add: copy_def io)
qed

lemma identityOn_sizes:
  "rows (identityOn ch) = 3" "cols (identityOn ch) = 3" "chls (identityOn ch) = ch"
  by (simp_all add: identityOn_def)

lemma convolution_identity:
  assumes "4 \<le> chls A" "chls A \<le> 2 ^ 32 - 1"
  shows "bnd Kernel_identity (convolution A) =
     bnd (bnd (zeros (of_int (rows A)) (of_int (cols A)) (of_int (chls A))) (fillAlpha (Fin 1)))
       (\<lambda>accum.
     bnd (bnd (zeros (of_int (rows A + 2)) (of_int (cols A + 2)) (of_int (chls A)))
            (\<lambda>pad. copy A pad 1 1)) (\<lambda>pad'.
     bnd (applyM accum (\<lambda>i j. foldE (\<lambda>k. foldE (\<lambda>wi. foldE (\<lambda>wj acc.
            bnd (get3 acc i j k) (\<lambda>a. bnd (get3 pad' (i + wi) (j + wj) k) (\<lambda>p.
              bnd (get3 (identityOn (chls A)) wi wj k)
                (\<lambda>wv. set3 acc i j (jadd a (jmul p wv)) k))))
          [0..cols (identityOn (chls A)) - 1]) [0..rows (identityOn (chls A)) - 1])
          [0..min (chls accum) 3 - 1]) accum) (\<lambda>accum'.
     bnd (normalizeM accum') (\<lambda>accum''.
     bnd (copy accum'' A 0 0) (\<lambda>A'. Inr (A', identityOn (chls A)))))))"
  using assms
  by (simp add: Kernel_identity_load bnd_Inr convolution_def extrude_identity flipXY_identity
      identityOn_sizes bnd_assoc applyM_def)

lemma clip_unit: "clip (Fin x) (Fin 0) (Fin 1) = Fin (max 0 (min 1 x))"
  by (simp add: clip_def jgt_def max_def min_def)

text \<open>
  Claim C1, as the code has it. Let the image satisfy the shape invariant, have at least
  one pixel and at least 4 channels, let two more rows and two more columns still fit an
  array (at most \<open>2^32 - 1\<close> entries), and let every colour value be a finite number.
  Then convolving it with the identity kernel returns the image with the same sizes, in
  which every colour value (channels 0, 1, 2) \<open>x\<close> has become \<open>x\<close> clipped to the range from
  0 to 1, so that it is unchanged exactly when it lies in that range, and in which
  channel 3 is 1 at every pixel. The kernel is left extruded to the channel count of the
  image.
\<close>

theorem identity_convolution:
  assumes wf: "wfMatrix A" and ch: "4 \<le> chls A"
    and r: "1 \<le> rows A" "rows A + 2 \<le> 2 ^ 32 - 1"
    and c: "1 \<le> cols A" "cols A + 2 \<le> 2 ^ 32 - 1"
    and f: "finiteColours A"
  shows "\<exists>A'. bnd Kernel_identity (convolution A) = Inr (A', identityOn (chls A)) \<and>
     wfMatrix A' \<and> rows A' = rows A \<and> cols A' = cols A \<and> chls A' = chls A \<and>
     (\<forall>i j. inRange A i j \<longrightarrow>
        (\<forall>k\<in>{0, 1, 2}. \<exists>x. valueAt A i j k = Some (Fin x) \<and>
           valueAt A' i j k = Some (Fin (max 0 (min 1 x))) \<and>
           (0 \<le> x \<and> x \<le> 1 \<longrightarrow> valueAt A' i j k = valueAt A i j k)) \<and>
        valueAt A' i j 3 = Some (Fin 1))"
proof -
  let ?f = "\<lambda>v. clip v (Fin 0) (Fin 1)"
  let ?X = "\<lambda>i j. (replicate (nat (chls A)) (Fin 0))
           [3 := Fin 1, 0 := px A i j ! 0, 1 := px A i j ! 1, 2 := px A i j ! 2]"
  have chb: "chls A \<le> 2 ^ 32 - 1" "chls A < 2 ^ 32" using wf by (simp_all add: wfMatrix_def)
  from accum_init [of "rows A" "cols A" "chls A"] r c ch chb(1)
  obtain accum where a:
    "bnd (zeros (of_int (rows A)) (of_int (cols A)) (of_int (chls A))) (fillAlpha (Fin 1)) =
       Inr accum"
    "shaped accum" "rows accum = rows A" "cols accum = cols A" "chls accum = chls A"
    "\<forall>i j. inRange accum i j \<longrightarrow>
        cellAt accum i j = Some (Arr ((replicate (nat (chls A)) (Fin 0))[3 := Fin 1]))"
    by auto
  from pad_copy [OF wf _ r c] ch
  obtain pad' where p:
    "bnd (zeros (of_int (rows A + 2)) (of_int (cols A + 2)) (of_int (chls A)))
       (\<lambda>pad. copy A pad 1 1) = Inr pad'"
    "\<forall>i j k. 0 \<le> i \<and> i < rows A + 2 \<and> 0 \<le> j \<and> j < cols A + 2 \<and> 0 \<le> k \<and> k < chls A \<longrightarrow>
        get3 pad' i j k =
          Inr (if inRange A (i - 1) (j - 1) then px A (i - 1) (j - 1) ! nat k else Fin 0)"
    by auto
  have kr: "[0..min (chls accum) 3 - 1] = [0, 1, 2]"
    using ch a(5) by (simp add: upto_0_2)
  from accumulate_identity [OF a(2-6) wf ch f p(2)]
  obtain acc1 where a1:
    "applyM accum (\<lambda>i j. foldE (\<lambda>k. foldE (\<lambda>wi. foldE (\<lambda>wj acc.
            bnd (get3 acc i j k) (\<lambda>a. bnd (get3 pad' (i + wi) (j + wj) k) (\<lambda>p.
              bnd (get3 (identityOn (chls A)) wi wj k)
                (\<lambda>wv. set3 acc i j (jadd a (jmul p wv)) k))))
          [0..cols (identityOn (chls A)) - 1]) [0..rows (identityOn (chls A)) - 1])
          [0, 1, 2]) accum = Inr acc1"
    "shaped acc1" "rows acc1 = rows A" "cols acc1 = cols A" "chls acc1 = chls A"
    "\<And>i j. inRange A i j \<Longrightarrow> cellAt acc1 i j = Some (Arr (?X i j))"
    by blast
  have r1: "inRange acc1 i j = inRange A i j" for i j
    using a1(3,4) by (simp add: inRange_def)
  have "\<exists>s'. normalizeM acc1 = Inr s' \<and> shaped s' \<and> rows s' = rows acc1 \<and>
      cols s' = cols acc1 \<and> chls s' = chls acc1 \<and>
      (\<forall>i j. inRange acc1 i j \<longrightarrow> cellAt s' i j = Some (Arr (map ?f (?X i j))))"
    by (rule normalizeM_cells [OF a1(2)]) (use ch a1(5,6) r1 in simp_all)
  then obtain acc2 where a2: "normalizeM acc1 = Inr acc2" "shaped acc2" "rows acc2 = rows A"
    "cols acc2 = cols A"
    "\<And>i j. inRange A i j \<Longrightarrow> cellAt acc2 i j = Some (Arr (map ?f (?X i j)))"
    using a1(3,4) r1 by auto
  from copy_onto [OF a2(2) wfMatrix_shaped [OF wf] a2(3,4)]
  obtain A' where A': "copy acc2 A 0 0 = Inr A'" "shaped A'" "rows A' = rows A"
    "cols A' = cols A" "chls A' = chls A"
    "\<And>i j. inRange A i j \<Longrightarrow> cellAt A' i j = cellAt acc2 i j"
    by blast
  have res: "bnd Kernel_identity (convolution A) = Inr (A', identityOn (chls A))"
    by (simp only: convolution_identity [OF ch chb(1)] a(1) p(1) kr a1(1) a2(1) A'(1) bnd_Inr)
  have cell: "cellAt A' i j = Some (Arr (map ?f (?X i j)))" if "inRange A i j" for i j
    using A'(6) [OF that] a2(5) [OF that] by simp
  have len: "length (?X i j) = nat (chls A)" for i j by simp
  have "wfMatrix A'"
  proof (rule wfMatrixI [OF A'(2)])
    fix i j
    assume "inRange A' i j"
    then have "inRange A i j" using A'(3,4) by (simp add: inRange_def)
    from cell [OF this] ch
    show "\<exists>c. cellAt A' i j = Some c \<and> wfCell (chls A') c"
      by (simp add: wfCell_def A'(5))
  qed (use wf A'(3,4,5) in \<open>simp_all add: wfMatrix_def\<close>)
  moreover have "\<exists>x. valueAt A i j k = Some (Fin x) \<and>
           valueAt A' i j k = Some (Fin (max 0 (min 1 x))) \<and>
           (0 \<le> x \<and> x \<le> 1 \<longrightarrow> valueAt A' i j k = valueAt A i j k)"
    if ij: "inRange A i j" and k: "k \<in> {0, 1, 2}" for i j k
  proof -
    have kn: "nat k < 3" "0 \<le> k" using k by auto
    from finiteColours_px [OF wf _ f ij kn(1)] ch
    obtain x where x: "px A i j ! nat k = Fin x" by auto
    have l: "nat k < length (px A i j)"
      using wf_px(2) [OF wf _ ij] ch kn(1) by simp
    have vA: "valueAt A i j k = Some (Fin x)"
      using wf_px(1) [OF wf _ ij] ch l kn(2) x by (simp add: valueAt_def)
    have "?X i j ! nat k = Fin x"
      using k ch x by auto
    then have vA': "valueAt A' i j k = Some (Fin (max 0 (min 1 x)))"
      using cell [OF ij] kn ch by (simp add: valueAt_def clip_unit)
    show ?thesis
      using vA vA' by auto
  qed
  moreover have "valueAt A' i j 3 = Some (Fin 1)" if ij: "inRange A i j" for i j
  proof -
    have "?X i j ! 3 = Fin 1" using ch by simp
    then show ?thesis
      using cell [OF ij] ch clip_unit [of 1] by (simp add: valueAt_def)
  qed
  ultimately show ?thesis
    using res A'(3,4,5) by blast
qed

text \<open>
  An instance of the theorem: a 1 x 2 image of 4 channels satisfies its hypotheses. In
  the result the colour value \<open>1/4\<close> is kept, \<open>3/2\<close> has become 1, and channel 3 of the first
  pixel, \<open>1/2\<close> in the image, is 1.
\<close>

theorem identity_convolution_witness:
  "wfMatrix \<lparr>m = [[Arr [Fin (3/2), Fin (1/4), Fin (- 1/2), Fin (1/2)],
                  Arr [Fin 0, Fin 1, Fin (3/4), Fin 0]]], rows = 1, cols = 2, chls = 4\<rparr> \<and>
   finiteColours \<lparr>m = [[Arr [Fin (3/2), Fin (1/4), Fin (- 1/2), Fin (1/2)],
                  Arr [Fin 0, Fin 1, Fin (3/4), Fin 0]]], rows = 1, cols = 2, chls = 4\<rparr> \<and>
   (\<exists>A'. bnd Kernel_identity (convolution \<lparr>m = [[Arr [Fin (3/2), Fin (1/4), Fin (- 1/2), Fin (1/2)],
                  Arr [Fin 0, Fin 1, Fin (3/4), Fin 0]]], rows = 1, cols = 2, chls = 4\<rparr>) = Inr (A', identityOn 4) \<and>
      valueAt A' 0 0 1 = Some (Fin (1/4)) \<and>
      valueAt A' 0 0 0 = Some (Fin 1) \<and>
      valueAt A' 0 0 3 = Some (Fin 1))"
proof -
  have w: "wfMatrix \<lparr>m = [[Arr [Fin (3/2), Fin (1/4), Fin (- 1/2), Fin (1/2)],
                  Arr [Fin 0, Fin 1, Fin (3/4), Fin 0]]], rows = 1, cols = 2, chls = 4\<rparr>"
    by (simp add: wfMatrix_def wfCell_def)
  have f: "finiteColours \<lparr>m = [[Arr [Fin (3/2), Fin (1/4), Fin (- 1/2), Fin (1/2)],
                  Arr [Fin 0, Fin 1, Fin (3/4), Fin 0]]], rows = 1, cols = 2, chls = 4\<rparr>"
    by (simp add: finiteColours_def)
  have r: "inRange \<lparr>m = [[Arr [Fin (3/2), Fin (1/4), Fin (- 1/2), Fin (1/2)],
                  Arr [Fin 0, Fin 1, Fin (3/4), Fin 0]]], rows = 1, cols = 2, chls = 4\<rparr> 0 0"
    by (simp add: inRange_def)
  have v: "valueAt \<lparr>m = [[Arr [Fin (3/2), Fin (1/4), Fin (- 1/2), Fin (1/2)],
                  Arr [Fin 0, Fin 1, Fin (3/4), Fin 0]]], rows = 1, cols = 2, chls = 4\<rparr> 0 0 1 = Some (Fin (1/4))"
    "valueAt \<lparr>m = [[Arr [Fin (3/2), Fin (1/4), Fin (- 1/2), Fin (1/2)],
                  Arr [Fin 0, Fin 1, Fin (3/4), Fin 0]]], rows = 1, cols = 2, chls = 4\<rparr> 0 0 0 = Some (Fin (3/2))"
    by (simp_all add: valueAt_def cellAt_def rowAt_def)
  from identity_convolution [OF w _ _ _ _ _ f]
  obtain A' where A': "bnd Kernel_identity (convolution \<lparr>m = [[Arr [Fin (3/2), Fin (1/4), Fin (- 1/2), Fin (1/2)],
                  Arr [Fin 0, Fin 1, Fin (3/4), Fin 0]]], rows = 1, cols = 2, chls = 4\<rparr>) = Inr (A', identityOn 4)"
    "\<And>i j. inRange \<lparr>m = [[Arr [Fin (3/2), Fin (1/4), Fin (- 1/2), Fin (1/2)],
                  Arr [Fin 0, Fin 1, Fin (3/4), Fin 0]]], rows = 1, cols = 2, chls = 4\<rparr> i j \<Longrightarrow>
        (\<forall>k\<in>{0, 1, 2}. \<exists>x. valueAt \<lparr>m = [[Arr [Fin (3/2), Fin (1/4), Fin (- 1/2), Fin (1/2)],
                  Arr [Fin 0, Fin 1, Fin (3/4), Fin 0]]], rows = 1, cols = 2, chls = 4\<rparr> i j k = Some (Fin x) \<and>
           valueAt A' i j k = Some (Fin (max 0 (min 1 x))) \<and>
           (0 \<le> x \<and> x \<le> 1 \<longrightarrow> valueAt A' i j k = valueAt \<lparr>m = [[Arr [Fin (3/2), Fin (1/4), Fin (- 1/2), Fin (1/2)],
                  Arr [Fin 0, Fin 1, Fin (3/4), Fin 0]]], rows = 1, cols = 2, chls = 4\<rparr> i j k)) \<and>
        valueAt A' i j 3 = Some (Fin 1)"
    by auto
  from A'(2) [OF r] v have "valueAt A' 0 0 1 = Some (Fin (1/4))"
    "valueAt A' 0 0 0 = Some (Fin 1)" "valueAt A' 0 0 3 = Some (Fin 1)"
    by auto
  with w f A'(1) show ?thesis by blast
qed

text \<open>
  Claim C1 as the specification states it fails: it promises that every colour value is
  left unchanged. On a 1 x 1 image of 4 channels whose colour values are \<open>3/2\<close>, \<open>1/4\<close> and
  \<open>-1/2\<close>, the identity kernel gives 1, \<open>1/4\<close> and 0: \<open>convolution\<close> ends with \<open>normalize\<close>,
  which clips every value of the accumulator to the range from 0 to 1.
\<close>

theorem identity_convolution_clips_counterexample:
  "bnd Kernel_identity (convolution
     \<lparr>m = [[Arr [Fin (3/2), Fin (1/4), Fin (- 1/2), Fin (1/2)]]],
      rows = 1, cols = 1, chls = 4\<rparr>) =
   Inr (\<lparr>m = [[Arr [Fin 1, Fin (1/4), Fin 0, Fin 1]]], rows = 1, cols = 1, chls = 4\<rparr>,
        identityOn 4)"
  by code_simp

end
